theory Spec2Isabelle
  imports Main "HOL-Library.Word" "HOL-Library.Multiset"
begin

section \<open>Orders (src/engine/order.go)\<close>

text \<open>
  Prices and quantities are Go \<open>int64\<close>: 64-bit words whose arithmetic wraps and whose
  comparisons are the signed ones (\<open><s\<close>, \<open>\<le>s\<close>).
\<close>

type_synonym int64 = "64 word"

datatype OrderSide = SideBuy | SideSell

datatype OrderType = TypeLimit | TypeMarket

datatype OrderStatus = StatusAccepted | StatusPartialFill | StatusFilled | StatusCancelled

record Order =
  ID :: string
  Symbol :: string
  Side :: OrderSide
  Type :: OrderType
  Price :: int64
  Quantity :: int64
  FilledQuantity :: int64
  Status :: OrderStatus
  Timestamp :: int64

text \<open>
  A trade. The source also stores a \<open>TradeID\<close> drawn from \<open>uuid.New()\<close> and a
  \<open>Timestamp\<close> read from the wall clock; both come from outside the program and no
  decision of the engine reads them, so the record keeps the four computed fields.
\<close>

record Trade =
  Price :: int64
  Quantity :: int64
  BuyOrderID :: string
  SellOrderID :: string

text \<open>
  Orders are heap objects: the id-map of a book, the queue of a price level and the
  matcher's local variables all hold pointers to the same \<open>Order\<close>, and \<open>Fill\<close>
  mutates it in place. The store maps an address to the object it holds.
\<close>

type_synonym addr = nat

type_synonym heap = "addr \<Rightarrow> Order"

record PriceLevel =
  Price :: int64
  Orders :: "addr list"

definition NewOrder ::
  "string \<Rightarrow> string \<Rightarrow> OrderSide \<Rightarrow> OrderType \<Rightarrow> int64 \<Rightarrow> int64 \<Rightarrow> int64 \<Rightarrow> Order" where
  "NewOrder oid symbol side orderType price quantity now =
     \<lparr>Order.ID = oid, Order.Symbol = symbol, Order.Side = side, Order.Type = orderType,
      Order.Price = price, Order.Quantity = quantity, Order.FilledQuantity = 0,
      Order.Status = StatusAccepted, Order.Timestamp = now\<rparr>"

text \<open>The method \<open>RemainingQuantity\<close> of \<open>Order\<close>.\<close>

definition Order_RemainingQuantity :: "Order \<Rightarrow> int64" where
  "Order_RemainingQuantity od = Order.Quantity od - Order.FilledQuantity od"

definition IsFilled :: "Order \<Rightarrow> bool" where
  "IsFilled od \<longleftrightarrow> Order.Quantity od \<le>s Order.FilledQuantity od"

definition Fill :: "int64 \<Rightarrow> Order \<Rightarrow> Order" where
  "Fill quantity od =
     (let newFilled = Order.FilledQuantity od + quantity
      in od\<lparr>Order.FilledQuantity := newFilled,
            Order.Status := (if Order.Quantity od \<le>s newFilled then StatusFilled
                             else StatusPartialFill)\<rparr>)"

definition SetStatus :: "OrderStatus \<Rightarrow> Order \<Rightarrow> Order" where
  "SetStatus status od = od\<lparr>Order.Status := status\<rparr>"


section \<open>The price index\<close>

text \<open>
  \<open>github.com/google/btree\<close> is a library outside the repository. A tree is modelled
  as the list of its items in iteration order: \<open>Ascend\<close> walks the list from its head,
  \<open>Min\<close> is the head, and \<open>ReplaceOrInsert\<close> places an item by the \<open>Less\<close> of its item
  type. The library treats two items as the same key when neither is \<open>Less\<close> than the
  other; for both item types of the source that is equality of the two \<open>int64\<close> prices,
  which is how \<open>Get\<close> and \<open>Delete\<close> find their item here.
\<close>

type_synonym BTree = "PriceLevel list"

definition PriceLevelItem_Less :: "int64 \<Rightarrow> int64 \<Rightarrow> bool" where
  "PriceLevelItem_Less p other \<longleftrightarrow> other <s p"

definition PriceLevelItemAscending_Less :: "int64 \<Rightarrow> int64 \<Rightarrow> bool" where
  "PriceLevelItemAscending_Less p other \<longleftrightarrow> p <s other"

fun bt_Get :: "int64 \<Rightarrow> BTree \<Rightarrow> PriceLevel option" where
  "bt_Get p [] = None"
| "bt_Get p (l # ls) = (if PriceLevel.Price l = p then Some l else bt_Get p ls)"

fun bt_ReplaceOrInsert :: "(int64 \<Rightarrow> int64 \<Rightarrow> bool) \<Rightarrow> PriceLevel \<Rightarrow> BTree \<Rightarrow> BTree" where
  "bt_ReplaceOrInsert lt item [] = [item]"
| "bt_ReplaceOrInsert lt item (l # ls) =
     (if PriceLevel.Price l = PriceLevel.Price item then item # ls
      else if lt (PriceLevel.Price item) (PriceLevel.Price l) then item # l # ls
      else l # bt_ReplaceOrInsert lt item ls)"

fun bt_Delete :: "int64 \<Rightarrow> BTree \<Rightarrow> BTree" where
  "bt_Delete p [] = []"
| "bt_Delete p (l # ls) = (if PriceLevel.Price l = p then ls else l # bt_Delete p ls)"

text \<open>
  A \<open>*PriceLevel\<close> obtained from a tree is the tree's own object, so an assignment to
  its \<open>Orders\<close> field is seen through the tree. \<open>level_assign p q t\<close> is that assignment
  for the level stored under price \<open>p\<close>.
\<close>

fun level_assign :: "int64 \<Rightarrow> addr list \<Rightarrow> BTree \<Rightarrow> BTree" where
  "level_assign p q [] = []"
| "level_assign p q (l # ls) =
     (if PriceLevel.Price l = p then l\<lparr>PriceLevel.Orders := q\<rparr> # ls
      else l # level_assign p q ls)"


section \<open>The order book (the engine's book file, second part of service_availability.go)\<close>

record OrderBook =
  Symbol :: string
  Bids :: BTree
  Asks :: BTree
  Orders :: "string \<rightharpoonup> addr"

definition NewOrderBook :: "string \<Rightarrow> OrderBook" where
  "NewOrderBook symbol =
     \<lparr>OrderBook.Symbol = symbol, Bids = [], Asks = [], OrderBook.Orders = Map.empty\<rparr>"

text \<open>The tree and the item type that the source selects by \<open>order.Side == SideBuy\<close>.\<close>

definition side_tree :: "OrderSide \<Rightarrow> OrderBook \<Rightarrow> BTree" where
  "side_tree side ob = (if side = SideBuy then Bids ob else Asks ob)"

definition set_side_tree :: "OrderSide \<Rightarrow> BTree \<Rightarrow> OrderBook \<Rightarrow> OrderBook" where
  "set_side_tree side t ob = (if side = SideBuy then ob\<lparr>Bids := t\<rparr> else ob\<lparr>Asks := t\<rparr>)"

definition side_less :: "OrderSide \<Rightarrow> int64 \<Rightarrow> int64 \<Rightarrow> bool" where
  "side_less side = (if side = SideBuy then PriceLevelItem_Less else PriceLevelItemAscending_Less)"

definition AddOrder :: "heap \<Rightarrow> addr \<Rightarrow> OrderBook \<Rightarrow> OrderBook" where
  "AddOrder h a ob =
     (let order = h a;
          ob1 = ob\<lparr>OrderBook.Orders := (OrderBook.Orders ob)(Order.ID order \<mapsto> a)\<rparr>;
          tree = side_tree (Order.Side order) ob1;
          tree1 = (case bt_Get (Order.Price order) tree of
                     Some existing \<Rightarrow> tree
                   | None \<Rightarrow>
                       bt_ReplaceOrInsert (side_less (Order.Side order))
                         \<lparr>PriceLevel.Price = Order.Price order, PriceLevel.Orders = []\<rparr> tree);
          orders = (case bt_Get (Order.Price order) tree1 of
                      Some priceLevel \<Rightarrow> PriceLevel.Orders priceLevel
                    | None \<Rightarrow> [])
      in set_side_tree (Order.Side order)
           (level_assign (Order.Price order) (orders @ [a]) tree1) ob1)"

text \<open>The loop of \<open>RemoveOrder\<close>: drop the first queued order whose id is \<open>orderID\<close>.\<close>

fun remove_first_id :: "heap \<Rightarrow> string \<Rightarrow> addr list \<Rightarrow> addr list" where
  "remove_first_id h orderID [] = []"
| "remove_first_id h orderID (x # xs) =
     (if Order.ID (h x) = orderID then xs else x # remove_first_id h orderID xs)"

definition RemoveOrder :: "heap \<Rightarrow> string \<Rightarrow> OrderBook \<Rightarrow> bool \<times> OrderBook" where
  "RemoveOrder h orderID ob =
     (case OrderBook.Orders ob orderID of
        None \<Rightarrow> (False, ob)
      | Some a \<Rightarrow>
          (let order = h a;
               tree = side_tree (Order.Side order) ob
           in case bt_Get (Order.Price order) tree of
                None \<Rightarrow> (False, ob\<lparr>OrderBook.Orders := (OrderBook.Orders ob)(orderID := None)\<rparr>)
              | Some priceLevel \<Rightarrow>
                  (let orders = remove_first_id h orderID (PriceLevel.Orders priceLevel);
                       tree1 = level_assign (Order.Price order) orders tree;
                       tree2 = (if orders = [] then bt_Delete (Order.Price order) tree1
                                else tree1)
                   in (True,
                       (set_side_tree (Order.Side order) tree2 ob)
                         \<lparr>OrderBook.Orders := (OrderBook.Orders ob)(orderID := None)\<rparr>))))"

text \<open>The summation loop \<open>totalQuantity += order.RemainingQuantity()\<close> over a queue.\<close>

definition sum_remaining :: "heap \<Rightarrow> int64 \<Rightarrow> addr list \<Rightarrow> int64" where
  "sum_remaining h acc q = foldl (\<lambda>t a. t + Order_RemainingQuantity (h a)) acc q"

text \<open>
  \<open>GetBestBid\<close> and \<open>GetBestAsk\<close> return \<open>(price, quantity, ok)\<close>; \<open>None\<close> stands for
  \<open>ok = false\<close>.
\<close>

definition best_of :: "heap \<Rightarrow> BTree \<Rightarrow> (int64 \<times> int64) option" where
  "best_of h t =
     (case t of
        [] \<Rightarrow> None
      | priceLevel # _ \<Rightarrow>
          if PriceLevel.Orders priceLevel = [] then None
          else Some (PriceLevel.Price priceLevel, sum_remaining h 0 (PriceLevel.Orders priceLevel)))"

definition GetBestBid :: "heap \<Rightarrow> OrderBook \<Rightarrow> (int64 \<times> int64) option" where
  "GetBestBid h ob = best_of h (Bids ob)"

definition GetBestAsk :: "heap \<Rightarrow> OrderBook \<Rightarrow> (int64 \<times> int64) option" where
  "GetBestAsk h ob = best_of h (Asks ob)"

definition GetOrder :: "string \<Rightarrow> OrderBook \<Rightarrow> addr option" where
  "GetOrder orderID ob = OrderBook.Orders ob orderID"

definition GetPriceLevelForBid :: "int64 \<Rightarrow> OrderBook \<Rightarrow> PriceLevel option" where
  "GetPriceLevelForBid price ob = bt_Get price (Bids ob)"

definition GetPriceLevelForAsk :: "int64 \<Rightarrow> OrderBook \<Rightarrow> PriceLevel option" where
  "GetPriceLevelForAsk price ob = bt_Get price (Asks ob)"

record OrderBookSnapshot =
  Price :: int64
  Quantity :: int64

text \<open>
  The \<open>Ascend\<close> callback of \<open>GetOrderBookSnapshot\<close>: it stops the iteration once
  \<open>count >= depth\<close> and otherwise appends one entry and increments \<open>cnt\<close>.
\<close>

fun ascend_snapshot :: "heap \<Rightarrow> int \<Rightarrow> int \<Rightarrow> BTree \<Rightarrow> OrderBookSnapshot list" where
  "ascend_snapshot h depth cnt [] = []"
| "ascend_snapshot h depth cnt (priceLevel # ls) =
     (if cnt \<ge> depth then []
      else \<lparr>OrderBookSnapshot.Price = PriceLevel.Price priceLevel,
            OrderBookSnapshot.Quantity = sum_remaining h 0 (PriceLevel.Orders priceLevel)\<rparr>
           # ascend_snapshot h depth (cnt + 1) ls)"

text \<open>
  \<open>make([]OrderBookSnapshot, 0, depth)\<close> panics on a negative capacity: the result is
  \<open>None\<close> there.
\<close>

definition GetOrderBookSnapshot ::
  "heap \<Rightarrow> int \<Rightarrow> OrderBook \<Rightarrow> (OrderBookSnapshot list \<times> OrderBookSnapshot list) option" where
  "GetOrderBookSnapshot h depth ob =
     (if depth < 0 then None
      else Some (ascend_snapshot h depth 0 (Bids ob), ascend_snapshot h depth 0 (Asks ob)))"


section \<open>The matcher (src/engine/matcher.go)\<close>

record MatchResult =
  Status :: OrderStatus
  FilledQuantity :: int64
  RemainingQuantity :: int64
  Trades :: "Trade list"

record InsufficientLiquidityError =
  Requested :: int64
  Available :: int64

text \<open>
  The variables a matching loop reads and writes: the store, the book, the result under
  construction and the local \<open>remainingQty\<close>.
\<close>

record MatchState =
  hp :: heap
  bk :: OrderBook
  res :: MatchResult
  remainingQty :: int64

text \<open>One pass through a loop body ends in \<open>break\<close> or goes back to the loop test.\<close>

datatype 'a step = Break 'a | Continue 'a

text \<open>The side whose tree an incoming order of side \<open>side\<close> matches against.\<close>

definition opposite :: "OrderSide \<Rightarrow> OrderSide" where
  "opposite side = (if side = SideBuy then SideSell else SideBuy)"

text \<open>
  \<open>bestPriceLevel\<close> is the pointer that \<open>GetPriceLevelForAsk\<close> or \<open>GetPriceLevelForBid\<close>
  returned for \<open>bestPrice\<close>: the tree's own level object. The loops delete a level from
  its tree only when its queue is empty and insert none, so the object is read and written
  here through the tree under \<open>bestPrice\<close>; once it has been deleted its queue is the empty
  one and an assignment to it changes nothing that can be observed.
\<close>

definition level_Orders :: "OrderSide \<Rightarrow> int64 \<Rightarrow> OrderBook \<Rightarrow> addr list" where
  "level_Orders side bestPrice ob =
     (case bt_Get bestPrice (side_tree side ob) of
        Some priceLevel \<Rightarrow> PriceLevel.Orders priceLevel
      | None \<Rightarrow> [])"

definition set_level_Orders :: "OrderSide \<Rightarrow> int64 \<Rightarrow> addr list \<Rightarrow> OrderBook \<Rightarrow> OrderBook" where
  "set_level_Orders side bestPrice q ob =
     set_side_tree side (level_assign bestPrice q (side_tree side ob)) ob"

definition delete_level :: "OrderSide \<Rightarrow> int64 \<Rightarrow> OrderBook \<Rightarrow> OrderBook" where
  "delete_level side bestPrice ob =
     set_side_tree side (bt_Delete bestPrice (side_tree side ob)) ob"

text \<open>
  \<open>bestPriceLevel.Orders = bestPriceLevel.Orders[1:]\<close> when more than one order is queued,
  \<open>bestPriceLevel.Orders[:0]\<close> otherwise.
\<close>

definition drop_head :: "addr list \<Rightarrow> addr list" where
  "drop_head q = (if length q > 1 then drop 1 q else take 0 q)"

definition make_trade :: "Order \<Rightarrow> Order \<Rightarrow> int64 \<Rightarrow> int64 \<Rightarrow> Trade" where
  "make_trade order restingOrder executionPrice executionQty =
     (if Order.Side order = SideBuy
      then \<lparr>Trade.Price = executionPrice, Trade.Quantity = executionQty,
            BuyOrderID = Order.ID order, SellOrderID = Order.ID restingOrder\<rparr>
      else \<lparr>Trade.Price = executionPrice, Trade.Quantity = executionQty,
            BuyOrderID = Order.ID restingOrder, SellOrderID = Order.ID order\<rparr>)"

text \<open>
  The body of the inner loop of \<open>matchLimitOrder\<close> (lines 115 to 183), for the incoming
  order at address \<open>a\<close>.
\<close>

definition limitLevelStep :: "addr \<Rightarrow> int64 \<Rightarrow> MatchState \<Rightarrow> MatchState step" where
  "limitLevelStep a bestPrice s =
     (let opp = opposite (Order.Side (hp s a))
      in case level_Orders opp bestPrice (bk s) of
           [] \<Rightarrow> Break s
         | r # rest \<Rightarrow>
             (let restingRemaining = Order_RemainingQuantity (hp s r)
              in if restingRemaining \<le>s 0
                 then Continue (s\<lparr>bk := set_level_Orders opp bestPrice (drop_head (r # rest)) (bk s)\<rparr>)
                 else
                   (let executionQty = (if restingRemaining <s remainingQty s
                                        then restingRemaining else remainingQty s)
                    in if executionQty \<le>s 0 then Break s
                       else
                         (let trade = make_trade (hp s a) (hp s r) bestPrice executionQty;
                              h1 = (hp s)(a := Fill executionQty (hp s a));
                              h2 = h1(r := Fill executionQty (h1 r));
                              result = (res s)\<lparr>Trades := Trades (res s) @ [trade],
                                MatchResult.FilledQuantity :=
                                  MatchResult.FilledQuantity (res s) + executionQty\<rparr>;
                              rq = Order.Quantity (h2 a) - Order.FilledQuantity (h2 a);
                              s1 = s\<lparr>hp := h2, res := result, remainingQty := rq\<rparr>
                          in if rq \<le>s 0 \<or> IsFilled (h2 a) then Break s1
                             else
                               (let ob1 = (if IsFilled (h2 r)
                                           then snd (RemoveOrder h2 (Order.ID (h2 r)) (bk s))
                                           else bk s)
                                in if level_Orders opp bestPrice ob1 = []
                                   then Break (s1\<lparr>bk := delete_level opp bestPrice ob1\<rparr>)
                                   else Continue (s1\<lparr>bk := ob1\<rparr>))))))"

text \<open>
  The inner loop \<open>for remainingQty > 0 && !order.IsFilled()\<close>. A loop that never leaves
  has the value \<open>None\<close>.
\<close>

partial_function (option) limitLevelLoop :: "addr \<Rightarrow> int64 \<Rightarrow> MatchState \<Rightarrow> MatchState option" where
  "limitLevelLoop a bestPrice s =
     (if 0 <s remainingQty s \<and> \<not> IsFilled (hp s a)
      then (case limitLevelStep a bestPrice s of
              Break s' \<Rightarrow> Some s'
            | Continue s' \<Rightarrow> limitLevelLoop a bestPrice s')
      else Some s)"

declare limitLevelLoop.simps [code]

text \<open>
  The head of the outer loop of \<open>matchLimitOrder\<close> (lines 82 to 112): the best opposing
  price when matching goes on, \<open>None\<close> for each of its \<open>break\<close>s.
\<close>

definition limitBestPrice :: "addr \<Rightarrow> MatchState \<Rightarrow> int64 option" where
  "limitBestPrice a s =
     (let order = hp s a
      in if Order.Side order = SideBuy
         then (case GetBestAsk (hp s) (bk s) of
                 None \<Rightarrow> None
               | Some (askPrice, _) \<Rightarrow>
                   if Order.Price order <s askPrice then None
                   else (case GetPriceLevelForAsk askPrice (bk s) of
                           None \<Rightarrow> None
                         | Some bestPriceLevel \<Rightarrow> Some askPrice))
         else (case GetBestBid (hp s) (bk s) of
                 None \<Rightarrow> None
               | Some (bidPrice, _) \<Rightarrow>
                   if bidPrice <s Order.Price order then None
                   else (case GetPriceLevelForBid bidPrice (bk s) of
                           None \<Rightarrow> None
                         | Some bestPriceLevel \<Rightarrow> Some bidPrice)))"

text \<open>The outer loop \<open>for remainingQty > 0\<close> of \<open>matchLimitOrder\<close>.\<close>

partial_function (option) limitWalk :: "addr \<Rightarrow> MatchState \<Rightarrow> MatchState option" where
  "limitWalk a s =
     (if 0 <s remainingQty s
      then (case limitBestPrice a s of
              None \<Rightarrow> Some s
            | Some bestPrice \<Rightarrow>
                (case limitLevelLoop a bestPrice s of
                   None \<Rightarrow> None
                 | Some s' \<Rightarrow> if remainingQty s' \<le>s 0 then Some s' else limitWalk a s'))
      else Some s)"

declare limitWalk.simps [code]

text \<open>
  \<open>matchLimitOrder\<close>: the walk, then the three-way decision of lines 191 to 203. The
  result is the store, the book and the \<open>MatchResult\<close>.
\<close>

definition matchLimitOrder ::
  "heap \<Rightarrow> addr \<Rightarrow> OrderBook \<Rightarrow> (heap \<times> OrderBook \<times> MatchResult) option" where
  "matchLimitOrder h a orderBook =
     (case limitWalk a
             \<lparr>hp = h, bk = orderBook,
              res = \<lparr>MatchResult.Status = StatusAccepted, MatchResult.FilledQuantity = 0,
                     MatchResult.RemainingQuantity = Order.Quantity (h a), Trades = []\<rparr>,
              remainingQty = Order.Quantity (h a)\<rparr> of
        None \<Rightarrow> None
      | Some s \<Rightarrow>
          (let result = (res s)\<lparr>MatchResult.RemainingQuantity := remainingQty s\<rparr>
           in if MatchResult.FilledQuantity result = 0
              then Some (hp s, AddOrder (hp s) a (bk s),
                         result\<lparr>MatchResult.Status := StatusAccepted\<rparr>)
              else if 0 <s remainingQty s
              then Some (hp s, AddOrder (hp s) a (bk s),
                         result\<lparr>MatchResult.Status := StatusPartialFill\<rparr>)
              else Some (hp s, bk s, result\<lparr>MatchResult.Status := StatusFilled\<rparr>)))"

text \<open>
  The liquidity pre-check of \<open>matchMarketOrder\<close>: \<open>Ascend\<close> over the whole opposing
  tree, adding every queued order's remaining quantity to \<open>totalAvailable\<close>.
\<close>

definition totalAvailable :: "heap \<Rightarrow> BTree \<Rightarrow> int64" where
  "totalAvailable h t = foldl (\<lambda>acc priceLevel. sum_remaining h acc (PriceLevel.Orders priceLevel)) 0 t"

text \<open>The body of the inner loop of \<open>matchMarketOrder\<close> (lines 269 to 337).\<close>

definition marketLevelStep :: "addr \<Rightarrow> int64 \<Rightarrow> MatchState \<Rightarrow> MatchState step" where
  "marketLevelStep a bestPrice s =
     (let opp = opposite (Order.Side (hp s a))
      in case level_Orders opp bestPrice (bk s) of
           [] \<Rightarrow> Break s
         | r # rest \<Rightarrow>
             (let restingRemaining = Order_RemainingQuantity (hp s r)
              in if restingRemaining \<le>s 0
                 then Continue (s\<lparr>bk := set_level_Orders opp bestPrice (drop_head (r # rest)) (bk s)\<rparr>)
                 else
                   (let executionQty = (if restingRemaining <s remainingQty s
                                        then restingRemaining else remainingQty s);
                        trade = make_trade (hp s a) (hp s r) bestPrice executionQty;
                        h1 = (hp s)(a := Fill executionQty (hp s a));
                        h2 = h1(r := Fill executionQty (h1 r));
                        result = (res s)\<lparr>Trades := Trades (res s) @ [trade],
                          MatchResult.FilledQuantity :=
                            MatchResult.FilledQuantity (res s) + executionQty\<rparr>;
                        rq = remainingQty s - executionQty;
                        s1 = s\<lparr>hp := h2, res := result, remainingQty := rq\<rparr>;
                        ob1 = (if IsFilled (h2 r)
                               then (let ob' = snd (RemoveOrder h2 (Order.ID (h2 r)) (bk s))
                                     in set_level_Orders opp bestPrice
                                          (drop_head (level_Orders opp bestPrice ob')) ob')
                               else bk s)
                    in if rq \<le>s 0 then Break (s1\<lparr>bk := ob1\<rparr>)
                       else if level_Orders opp bestPrice ob1 = []
                       then Break (s1\<lparr>bk := delete_level opp bestPrice ob1\<rparr>)
                       else Continue (s1\<lparr>bk := ob1\<rparr>))))"

partial_function (option) marketLevelLoop :: "addr \<Rightarrow> int64 \<Rightarrow> MatchState \<Rightarrow> MatchState option" where
  "marketLevelLoop a bestPrice s =
     (if 0 <s remainingQty s
      then (case marketLevelStep a bestPrice s of
              Break s' \<Rightarrow> Some s'
            | Continue s' \<Rightarrow> marketLevelLoop a bestPrice s')
      else Some s)"

declare marketLevelLoop.simps [code]

text \<open>The head of the outer loop of \<open>matchMarketOrder\<close> (lines 245 to 266).\<close>

definition marketBestPrice :: "addr \<Rightarrow> MatchState \<Rightarrow> int64 option" where
  "marketBestPrice a s =
     (if Order.Side (hp s a) = SideBuy
      then (case GetBestAsk (hp s) (bk s) of
              None \<Rightarrow> None
            | Some (askPrice, _) \<Rightarrow>
                (case GetPriceLevelForAsk askPrice (bk s) of
                   None \<Rightarrow> None
                 | Some bestPriceLevel \<Rightarrow> Some askPrice))
      else (case GetBestBid (hp s) (bk s) of
              None \<Rightarrow> None
            | Some (bidPrice, _) \<Rightarrow>
                (case GetPriceLevelForBid bidPrice (bk s) of
                   None \<Rightarrow> None
                 | Some bestPriceLevel \<Rightarrow> Some bidPrice)))"

partial_function (option) marketWalk :: "addr \<Rightarrow> MatchState \<Rightarrow> MatchState option" where
  "marketWalk a s =
     (if 0 <s remainingQty s
      then (case marketBestPrice a s of
              None \<Rightarrow> Some s
            | Some bestPrice \<Rightarrow>
                (case marketLevelLoop a bestPrice s of
                   None \<Rightarrow> None
                 | Some s' \<Rightarrow> marketWalk a s'))
      else Some s)"

declare marketWalk.simps [code]

text \<open>
  \<open>matchMarketOrder\<close>: \<open>Inl\<close> is the returned \<open>InsufficientLiquidityError\<close>, \<open>Inr\<close> the
  store, the book and the result.
\<close>

definition matchMarketOrder ::
  "heap \<Rightarrow> addr \<Rightarrow> OrderBook \<Rightarrow>
     (InsufficientLiquidityError + heap \<times> OrderBook \<times> MatchResult) option" where
  "matchMarketOrder h a orderBook =
     (let order = h a;
          quantity = Order.Quantity order;
          available = totalAvailable h (side_tree (opposite (Order.Side order)) orderBook)
      in if available <s quantity
         then Some (Inl \<lparr>Requested = quantity, Available = available\<rparr>)
         else (case marketWalk a
                      \<lparr>hp = h, bk = orderBook,
                       res = \<lparr>MatchResult.Status = StatusFilled, MatchResult.FilledQuantity = 0,
                              MatchResult.RemainingQuantity = 0, Trades = []\<rparr>,
                       remainingQty = quantity\<rparr> of
                 None \<Rightarrow> None
               | Some s \<Rightarrow>
                   Some (Inr (hp s, bk s,
                              (res s)\<lparr>MatchResult.RemainingQuantity := remainingQty s,
                                      MatchResult.Status := StatusFilled\<rparr>))))"


section \<open>The matcher's books and the handlers (src/handlers/order_handler.go)\<close>

text \<open>
  The process state: the store of order objects, the next unused address (each
  \<open>NewOrder\<close> allocates a new object) and the matcher's map from symbol to book. The map
  is kept as a list of its entries; the order of the list stands for the order in which a
  \<open>range\<close> over the Go map happens to visit them.
\<close>

record World =
  heap :: heap
  nextAddr :: addr
  OrderBooks :: "(string \<times> OrderBook) list"

definition GetOrCreateOrderBook ::
  "string \<Rightarrow> (string \<times> OrderBook) list \<Rightarrow> OrderBook \<times> (string \<times> OrderBook) list" where
  "GetOrCreateOrderBook symbol books =
     (case map_of books symbol of
        Some ob \<Rightarrow> (ob, books)
      | None \<Rightarrow> (NewOrderBook symbol, books @ [(symbol, NewOrderBook symbol)]))"

text \<open>A book is reached through a pointer: what a call did to it is seen under its symbol.\<close>

definition put_book :: "string \<Rightarrow> OrderBook \<Rightarrow> (string \<times> OrderBook) list \<Rightarrow> (string \<times> OrderBook) list" where
  "put_book symbol ob books = map (\<lambda>kb. if fst kb = symbol then (symbol, ob) else kb) books"

definition MatchOrder ::
  "World \<Rightarrow> addr \<Rightarrow> ((InsufficientLiquidityError + MatchResult) \<times> World) option" where
  "MatchOrder w a =
     (let order = heap w a;
          (orderBook, books) = GetOrCreateOrderBook (Order.Symbol order) (OrderBooks w)
      in if Order.Type order = TypeMarket
         then (case matchMarketOrder (heap w) a orderBook of
                 None \<Rightarrow> None
               | Some (Inl e) \<Rightarrow> Some (Inl e, w\<lparr>OrderBooks := books\<rparr>)
               | Some (Inr (h, ob, result)) \<Rightarrow>
                   Some (Inr result,
                         w\<lparr>heap := h, OrderBooks := put_book (Order.Symbol order) ob books\<rparr>))
         else (case matchLimitOrder (heap w) a orderBook of
                 None \<Rightarrow> None
               | Some (h, ob, result) \<Rightarrow>
                   Some (Inr result,
                         w\<lparr>heap := h, OrderBooks := put_book (Order.Symbol order) ob books\<rparr>)))"

record SubmitOrderRequest =
  Symbol :: string
  Side :: string
  Type :: string
  Price :: int64
  Quantity :: int64

record ValidationError =
  Message :: string

text \<open>\<open>validateSubmitOrderRequest\<close>; \<open>None\<close> is the returned \<open>nil\<close>.\<close>

definition validateSubmitOrderRequest :: "SubmitOrderRequest \<Rightarrow> ValidationError option" where
  "validateSubmitOrderRequest req =
     (if SubmitOrderRequest.Symbol req = []
      then Some \<lparr>Message = ''Invalid order: symbol is required''\<rparr>
      else if SubmitOrderRequest.Side req \<noteq> ''BUY'' \<and> SubmitOrderRequest.Side req \<noteq> ''SELL''
      then Some \<lparr>Message = ''Invalid order: side must be BUY or SELL''\<rparr>
      else if SubmitOrderRequest.Type req \<noteq> ''LIMIT'' \<and> SubmitOrderRequest.Type req \<noteq> ''MARKET''
      then Some \<lparr>Message = ''Invalid order: type must be LIMIT or MARKET''\<rparr>
      else if SubmitOrderRequest.Quantity req \<le>s 0
      then Some \<lparr>Message = ''Invalid order: quantity must be positive''\<rparr>
      else if SubmitOrderRequest.Type req = ''LIMIT'' \<and> SubmitOrderRequest.Price req \<le>s 0
      then Some \<lparr>Message = ''Invalid order: price must be positive for LIMIT orders''\<rparr>
      else None)"

text \<open>
  What \<open>SubmitOrder\<close> answers: the HTTP status with the validation message, the
  insufficient-liquidity rejection, or the HTTP status, the order id and the match result.
  The counters and latency samples of the handler are metrics only and are left out.
\<close>

datatype SubmitResponse =
    SubmitBadRequest string
  | SubmitInsufficientLiquidity
  | SubmitMatched nat string MatchResult

text \<open>
  \<open>SubmitOrder\<close> after the body has been parsed into \<open>req\<close>; \<open>orderID\<close> is the value of
  \<open>uuid.New().String()\<close> and \<open>now\<close> the clock reading taken by \<open>NewOrder\<close>.
\<close>

definition SubmitOrder ::
  "SubmitOrderRequest \<Rightarrow> string \<Rightarrow> int64 \<Rightarrow> World \<Rightarrow> (SubmitResponse \<times> World) option" where
  "SubmitOrder req orderID now w =
     (case validateSubmitOrderRequest req of
        Some err \<Rightarrow> Some (SubmitBadRequest (Message err), w)
      | None \<Rightarrow>
          (let side = (if SubmitOrderRequest.Side req = ''BUY'' then SideBuy else SideSell);
               orderType = (if SubmitOrderRequest.Type req = ''LIMIT'' then TypeLimit
                            else TypeMarket);
               order = NewOrder orderID (SubmitOrderRequest.Symbol req) side orderType
                         (SubmitOrderRequest.Price req) (SubmitOrderRequest.Quantity req) now;
               a = nextAddr w;
               w1 = w\<lparr>heap := (heap w)(a := order), nextAddr := Suc a\<rparr>
           in case MatchOrder w1 a of
                None \<Rightarrow> None
              | Some (Inl e, w2) \<Rightarrow> Some (SubmitInsufficientLiquidity, w2)
              | Some (Inr result, w2) \<Rightarrow>
                  Some (SubmitMatched
                          (if MatchResult.Status result = StatusAccepted then 201
                           else if MatchResult.Status result = StatusPartialFill then 202
                           else 200)
                          orderID result, w2)))"

text \<open>
  The search loop shared by \<open>CancelOrder\<close> and \<open>GetOrderStatus\<close>: the first visited book
  whose id-map holds \<open>orderID\<close>, as its position in the list, with the order found there.
\<close>

fun find_order :: "string \<Rightarrow> (string \<times> OrderBook) list \<Rightarrow> (nat \<times> addr) option" where
  "find_order orderID [] = None"
| "find_order orderID (kb # rest) =
     (case GetOrder orderID (snd kb) of
        Some a \<Rightarrow> Some (0, a)
      | None \<Rightarrow> map_option (\<lambda>(i, a). (Suc i, a)) (find_order orderID rest))"

datatype CancelResponse = CancelNotFound | CancelAlreadyFilled | CancelOK

definition CancelOrder :: "string \<Rightarrow> World \<Rightarrow> CancelResponse \<times> World" where
  "CancelOrder orderID w =
     (case find_order orderID (OrderBooks w) of
        None \<Rightarrow> (CancelNotFound, w)
      | Some (i, a) \<Rightarrow>
          if Order.Status (heap w a) = StatusFilled then (CancelAlreadyFilled, w)
          else
            (let kb = OrderBooks w ! i;
                 ob = snd (RemoveOrder (heap w) orderID (snd kb))
             in (CancelOK,
                 w\<lparr>heap := (heap w)(a := SetStatus StatusCancelled (heap w a)),
                   OrderBooks := (OrderBooks w)[i := (fst kb, ob)]\<rparr>)))"

text \<open>\<open>GetOrderStatus\<close>: the order whose fields are reported, \<open>None\<close> for the 404.\<close>

definition GetOrderStatus :: "string \<Rightarrow> World \<Rightarrow> Order option" where
  "GetOrderStatus orderID w =
     (case find_order orderID (OrderBooks w) of
        None \<Rightarrow> None
      | Some (i, a) \<Rightarrow> Some (heap w a))"

section \<open>Concrete states and requests used in the statements\<close>

text \<open>The order that \<open>SubmitOrder\<close> builds from a valid request.\<close>

definition submitted_order :: "SubmitOrderRequest \<Rightarrow> string \<Rightarrow> int64 \<Rightarrow> Order" where
  "submitted_order req orderID now =
     NewOrder orderID (SubmitOrderRequest.Symbol req)
       (if SubmitOrderRequest.Side req = ''BUY'' then SideBuy else SideSell)
       (if SubmitOrderRequest.Type req = ''LIMIT'' then TypeLimit else TypeMarket)
       (SubmitOrderRequest.Price req) (SubmitOrderRequest.Quantity req) now"

text \<open>The process state after the new order object has been allocated.\<close>

definition with_order :: "World \<Rightarrow> Order \<Rightarrow> World" where
  "with_order w od = w\<lparr>heap := (heap w)(nextAddr w := od), nextAddr := Suc (nextAddr w)\<rparr>"

definition empty_heap :: heap where
  "empty_heap = (\<lambda>_. NewOrder [] [] SideBuy TypeLimit 0 0 0)"

definition empty_world :: World where
  "empty_world = \<lparr>heap = empty_heap, nextAddr = 0, OrderBooks = []\<rparr>"

definition market_with_price :: SubmitOrderRequest where
  "market_with_price =
     \<lparr>SubmitOrderRequest.Symbol = ''AAPL'', SubmitOrderRequest.Side = ''BUY'',
      SubmitOrderRequest.Type = ''MARKET'', SubmitOrderRequest.Price = 15050,
      SubmitOrderRequest.Quantity = 100\<rparr>"

definition limit_no_symbol :: SubmitOrderRequest where
  "limit_no_symbol =
     \<lparr>SubmitOrderRequest.Symbol = [], SubmitOrderRequest.Side = ''BUY'',
      SubmitOrderRequest.Type = ''LIMIT'', SubmitOrderRequest.Price = 15050,
      SubmitOrderRequest.Quantity = 100\<rparr>"

text \<open>
  Books with one, two and three asks at the price 15050, all for AAPL, admitted in the
  order of their addresses.
\<close>

definition ask :: "string \<Rightarrow> int64 \<Rightarrow> int64 \<Rightarrow> Order" where
  "ask oid price quantity = NewOrder oid ''AAPL'' SideSell TypeLimit price quantity 0"

definition asks1_heap :: heap where
  "asks1_heap = empty_heap(1 := ask ''s1'' 15050 100)"

definition asks1_book :: OrderBook where
  "asks1_book =
     \<lparr>OrderBook.Symbol = ''AAPL'', Bids = [],
      Asks = [\<lparr>PriceLevel.Price = 15050, PriceLevel.Orders = [1]\<rparr>],
      OrderBook.Orders = [''s1'' \<mapsto> 1]\<rparr>"

definition asks2_heap :: heap where
  "asks2_heap = empty_heap(1 := ask ''s1'' 15050 200, 2 := ask ''s2'' 15050 300)"

definition asks2_book :: OrderBook where
  "asks2_book =
     \<lparr>OrderBook.Symbol = ''AAPL'', Bids = [],
      Asks = [\<lparr>PriceLevel.Price = 15050, PriceLevel.Orders = [1, 2]\<rparr>],
      OrderBook.Orders = [''s1'' \<mapsto> 1, ''s2'' \<mapsto> 2]\<rparr>"

definition asks3_heap :: heap where
  "asks3_heap =
     empty_heap(1 := ask ''s1'' 15050 200, 2 := ask ''s2'' 15050 300, 3 := ask ''s3'' 15050 400)"

definition asks3_book :: OrderBook where
  "asks3_book =
     \<lparr>OrderBook.Symbol = ''AAPL'', Bids = [],
      Asks = [\<lparr>PriceLevel.Price = 15050, PriceLevel.Orders = [1, 2, 3]\<rparr>],
      OrderBook.Orders = [''s1'' \<mapsto> 1, ''s2'' \<mapsto> 2, ''s3'' \<mapsto> 3]\<rparr>"

text \<open>The ids queued in a book, level by level, bids first.\<close>

definition queue_ids :: "heap \<Rightarrow> addr list \<Rightarrow> string list" where
  "queue_ids h q = map (\<lambda>a. Order.ID (h a)) q"

definition tree_ids :: "heap \<Rightarrow> BTree \<Rightarrow> string list" where
  "tree_ids h t = concat (map (\<lambda>l. queue_ids h (PriceLevel.Orders l)) t)"

definition book_ids :: "heap \<Rightarrow> OrderBook \<Rightarrow> string list" where
  "book_ids h ob = tree_ids h (Bids ob) @ tree_ids h (Asks ob)"


text \<open>
  Two more objects for \<open>AddOrder\<close> on the one-ask book: \<open>fresh_heap\<close> holds at address 2 an
  order with the new id \<open>s2\<close>, \<open>dup_heap\<close> one that carries the id \<open>s1\<close> again.
\<close>

definition fresh_heap :: heap where
  "fresh_heap = asks1_heap(2 := ask ''s2'' 15050 50)"

definition dup_heap :: heap where
  "dup_heap = asks1_heap(2 := ask ''s1'' 15050 50)"

text \<open>
  What the claim on snapshots calls the quantity of a level: the sum over its queue of
  quantity minus filled quantity, with the level's price.
\<close>

definition snapshot_entry :: "heap \<Rightarrow> PriceLevel \<Rightarrow> OrderBookSnapshot" where
  "snapshot_entry h l =
     \<lparr>OrderBookSnapshot.Price = PriceLevel.Price l,
      OrderBookSnapshot.Quantity =
        sum_list (map (\<lambda>a. Order.Quantity (h a) - Order.FilledQuantity (h a)) (PriceLevel.Orders l))\<rparr>"

definition strictly_descending :: "int64 list \<Rightarrow> bool" where
  "strictly_descending ps = sorted_wrt (\<lambda>p q. q <s p) ps"

definition strictly_ascending :: "int64 list \<Rightarrow> bool" where
  "strictly_ascending ps = sorted_wrt (\<lambda>p q. p <s q) ps"

definition index_ordered :: "OrderBook \<Rightarrow> bool" where
  "index_ordered ob \<longleftrightarrow>
     strictly_descending (map PriceLevel.Price (Bids ob))
     \<and> strictly_ascending (map PriceLevel.Price (Asks ob))"


text \<open>
  A book with two bid levels and two ask levels, and the one-ask book after a limit buy of
  100 at 15050 has traded with its ask.
\<close>

definition two_sided_heap :: heap where
  "two_sided_heap =
     asks3_heap(4 := NewOrder ''b4'' ''AAPL'' SideBuy TypeLimit 15045 500 0,
                5 := NewOrder ''b5'' ''AAPL'' SideBuy TypeLimit 15040 100 0,
                6 := ask ''s6'' 15055 600)"

definition two_sided_book :: OrderBook where
  "two_sided_book =
     \<lparr>OrderBook.Symbol = ''AAPL'',
      Bids = [\<lparr>PriceLevel.Price = 15045, PriceLevel.Orders = [4]\<rparr>,
              \<lparr>PriceLevel.Price = 15040, PriceLevel.Orders = [5]\<rparr>],
      Asks = [\<lparr>PriceLevel.Price = 15050, PriceLevel.Orders = [1, 2, 3]\<rparr>,
              \<lparr>PriceLevel.Price = 15055, PriceLevel.Orders = [6]\<rparr>],
      OrderBook.Orders = [''s1'' \<mapsto> 1, ''s2'' \<mapsto> 2, ''s3'' \<mapsto> 3, ''b4'' \<mapsto> 4,
                          ''b5'' \<mapsto> 5, ''s6'' \<mapsto> 6]\<rparr>"

definition stale_heap :: heap where
  "stale_heap =
     empty_heap(2 := (NewOrder ''b1'' ''AAPL'' SideBuy TypeLimit 15050 100 0)
                       \<lparr>Order.FilledQuantity := 100, Order.Status := StatusFilled\<rparr>,
                1 := (ask ''s1'' 15050 100)
                       \<lparr>Order.FilledQuantity := 100, Order.Status := StatusFilled\<rparr>)"

text \<open>
  An id is indexed when the id-map of some book of the matcher binds it; it is indexed only
  at position \<open>i\<close> when no other book binds it.
\<close>

definition indexed :: "string \<Rightarrow> (string \<times> OrderBook) list \<Rightarrow> bool" where
  "indexed orderID books \<longleftrightarrow> (\<exists>kb \<in> set books. OrderBook.Orders (snd kb) orderID \<noteq> None)"

definition indexed_only_at :: "nat \<Rightarrow> string \<Rightarrow> (string \<times> OrderBook) list \<Rightarrow> bool" where
  "indexed_only_at i orderID books \<longleftrightarrow>
     (\<forall>j < length books. j \<noteq> i \<longrightarrow> OrderBook.Orders (snd (books ! j)) orderID = None)"


text \<open>
  The process state after a limit sell of 300 and a limit buy of 500, both at 15050: the
  sell is filled and gone from the book, the buy rests with 200 remaining. Then the state
  after the buy has been cancelled. \<open>filled_world\<close> is the one-ask book after a limit buy
  filled its ask.
\<close>

definition filled_world :: World where
  "filled_world = \<lparr>heap = stale_heap, nextAddr = 3, OrderBooks = [(''AAPL'', asks1_book)]\<rparr>"

definition sell_300 :: SubmitOrderRequest where
  "sell_300 =
     \<lparr>SubmitOrderRequest.Symbol = ''AAPL'', SubmitOrderRequest.Side = ''SELL'',
      SubmitOrderRequest.Type = ''LIMIT'', SubmitOrderRequest.Price = 15050,
      SubmitOrderRequest.Quantity = 300\<rparr>"

definition buy_500 :: SubmitOrderRequest where
  "buy_500 =
     \<lparr>SubmitOrderRequest.Symbol = ''AAPL'', SubmitOrderRequest.Side = ''BUY'',
      SubmitOrderRequest.Type = ''LIMIT'', SubmitOrderRequest.Price = 15050,
      SubmitOrderRequest.Quantity = 500\<rparr>"

definition partial_world :: World where
  "partial_world =
     \<lparr>heap = empty_heap
         (1 := (NewOrder ''id-b'' ''AAPL'' SideBuy TypeLimit 15050 500 0)
                 \<lparr>Order.FilledQuantity := 300, Order.Status := StatusPartialFill\<rparr>,
          0 := (NewOrder ''id-s'' ''AAPL'' SideSell TypeLimit 15050 300 0)
                 \<lparr>Order.FilledQuantity := 300, Order.Status := StatusFilled\<rparr>),
      nextAddr = 2,
      OrderBooks =
        [(''AAPL'',
          \<lparr>OrderBook.Symbol = ''AAPL'',
           Bids = [\<lparr>PriceLevel.Price = 15050, PriceLevel.Orders = [1]\<rparr>],
           Asks = [],
           OrderBook.Orders = [''id-b'' \<mapsto> 1]\<rparr>)]\<rparr>"

definition cancelled_world :: World where
  "cancelled_world =
     \<lparr>heap = empty_heap
         (0 := (NewOrder ''id-s'' ''AAPL'' SideSell TypeLimit 15050 300 0)
                 \<lparr>Order.FilledQuantity := 300, Order.Status := StatusFilled\<rparr>,
          1 := (NewOrder ''id-b'' ''AAPL'' SideBuy TypeLimit 15050 500 0)
                 \<lparr>Order.FilledQuantity := 300, Order.Status := StatusCancelled\<rparr>),
      nextAddr = 2,
      OrderBooks =
        [(''AAPL'',
          \<lparr>OrderBook.Symbol = ''AAPL'', Bids = [], Asks = [],
           OrderBook.Orders = Map.empty\<rparr>)]\<rparr>"


text \<open>
  The process state after four limit sells, three at 15050 with the ids \<open>id-1\<close>, \<open>id-2\<close>,
  \<open>id-3\<close> in this order and one at 15060 with the id \<open>id-4\<close>, and that state after the
  cancellation of \<open>id-2\<close>, the order in the middle of its queue.
\<close>

definition sell_at :: "int64 \<Rightarrow> int64 \<Rightarrow> SubmitOrderRequest" where
  "sell_at price quantity =
     \<lparr>SubmitOrderRequest.Symbol = ''AAPL'', SubmitOrderRequest.Side = ''SELL'',
      SubmitOrderRequest.Type = ''LIMIT'', SubmitOrderRequest.Price = price,
      SubmitOrderRequest.Quantity = quantity\<rparr>"

definition queue_world :: World where
  "queue_world =
     \<lparr>heap = empty_heap
         (0 := NewOrder ''id-1'' ''AAPL'' SideSell TypeLimit 15050 200 0,
          1 := NewOrder ''id-2'' ''AAPL'' SideSell TypeLimit 15050 300 0,
          2 := NewOrder ''id-3'' ''AAPL'' SideSell TypeLimit 15050 400 0,
          3 := NewOrder ''id-4'' ''AAPL'' SideSell TypeLimit 15060 100 0),
      nextAddr = 4,
      OrderBooks =
        [(''AAPL'',
          \<lparr>OrderBook.Symbol = ''AAPL'',
           Bids = [],
           Asks = [\<lparr>PriceLevel.Price = 15050, PriceLevel.Orders = [0, 1, 2]\<rparr>,
                   \<lparr>PriceLevel.Price = 15060, PriceLevel.Orders = [3]\<rparr>],
           OrderBook.Orders = [''id-1'' \<mapsto> 0, ''id-2'' \<mapsto> 1, ''id-3'' \<mapsto> 2,
                               ''id-4'' \<mapsto> 3]\<rparr>)]\<rparr>"

definition queue_world_cancelled :: World where
  "queue_world_cancelled =
     \<lparr>heap = empty_heap
         (0 := NewOrder ''id-1'' ''AAPL'' SideSell TypeLimit 15050 200 0,
          2 := NewOrder ''id-3'' ''AAPL'' SideSell TypeLimit 15050 400 0,
          3 := NewOrder ''id-4'' ''AAPL'' SideSell TypeLimit 15060 100 0,
          1 := (NewOrder ''id-2'' ''AAPL'' SideSell TypeLimit 15050 300 0)
                 \<lparr>Order.Status := StatusCancelled\<rparr>),
      nextAddr = 4,
      OrderBooks =
        [(''AAPL'',
          \<lparr>OrderBook.Symbol = ''AAPL'',
           Bids = [],
           Asks = [\<lparr>PriceLevel.Price = 15050, PriceLevel.Orders = [0, 2]\<rparr>,
                   \<lparr>PriceLevel.Price = 15060, PriceLevel.Orders = [3]\<rparr>],
           OrderBook.Orders = [''id-1'' \<mapsto> 0, ''id-3'' \<mapsto> 2, ''id-4'' \<mapsto> 3]\<rparr>)]\<rparr>"


section \<open>Invariants of the matching walks\<close>

text \<open>
  The orders queued on one side of a book, and a new object: one that no queue and no
  id-map entry of the book points to.
\<close>

definition queued :: "OrderSide \<Rightarrow> OrderBook \<Rightarrow> addr set" where
  "queued side ob = (\<Union>l \<in> set (side_tree side ob). set (PriceLevel.Orders l))"

definition unreferenced :: "addr \<Rightarrow> OrderBook \<Rightarrow> bool" where
  "unreferenced a ob \<longleftrightarrow>
     a \<notin> queued SideBuy ob \<and> a \<notin> queued SideSell ob \<and> a \<notin> ran (OrderBook.Orders ob)"

text \<open>
  \<open>Fill\<close> writes the fill counter and the status only: every other field of every order
  is the same in two stores related by \<open>same_static\<close>.
\<close>

definition same_static :: "heap \<Rightarrow> heap \<Rightarrow> bool" where
  "same_static h h' \<longleftrightarrow>
     (\<forall>x. Order.ID (h' x) = Order.ID (h x) \<and> Order.Side (h' x) = Order.Side (h x)
          \<and> Order.Type (h' x) = Order.Type (h x) \<and> Order.Price (h' x) = Order.Price (h x)
          \<and> Order.Quantity (h' x) = Order.Quantity (h x))"

text \<open>
  The walks delete from the book and never insert: each level of the later tree is a level
  of the earlier tree, at the same price, that has lost orders; the id-map has lost entries.
\<close>

definition sub_tree :: "BTree \<Rightarrow> BTree \<Rightarrow> bool" where
  "sub_tree t' t \<longleftrightarrow>
     (\<forall>l' \<in> set t'. \<exists>l \<in> set t. PriceLevel.Price l = PriceLevel.Price l'
                                  \<and> set (PriceLevel.Orders l') \<subseteq> set (PriceLevel.Orders l))"

definition sub_book :: "OrderBook \<Rightarrow> OrderBook \<Rightarrow> bool" where
  "sub_book ob' ob \<longleftrightarrow>
     sub_tree (Bids ob') (Bids ob) \<and> sub_tree (Asks ob') (Asks ob)
     \<and> OrderBook.Orders ob' \<subseteq>\<^sub>m OrderBook.Orders ob"

text \<open>
  The measure under which the loops terminate: a queued order counts 2 while it has
  remaining quantity and 1 once it has none. A trade that continues the loop exhausts the
  resting order, and every cut of a queue removes an order.
\<close>

definition order_weight :: "heap \<Rightarrow> addr \<Rightarrow> nat" where
  "order_weight h x = (if Order_RemainingQuantity (h x) \<le>s 0 then 1 else 2)"

definition queue_weight :: "heap \<Rightarrow> addr list \<Rightarrow> nat" where
  "queue_weight h q = sum_list (map (order_weight h) q)"

definition tree_weight :: "heap \<Rightarrow> BTree \<Rightarrow> nat" where
  "tree_weight h t = sum_list (map (\<lambda>l. queue_weight h (PriceLevel.Orders l)) t)"

definition walk_weight :: "addr \<Rightarrow> MatchState \<Rightarrow> nat" where
  "walk_weight a s = tree_weight (hp s) (side_tree (opposite (Order.Side (hp s a))) (bk s))"

text \<open>
  The price test of the limit walk, negated: the walk goes on at the best opposing price
  \<open>p\<close> only when the incoming order crosses it (lines 91 and 102).
\<close>

definition crosses :: "Order \<Rightarrow> int64 \<Rightarrow> bool" where
  "crosses order p \<longleftrightarrow>
     (if Order.Side order = SideBuy then \<not> Order.Price order <s p
      else \<not> p <s Order.Price order)"

text \<open>
  A trade of the incoming order at \<open>a\<close> with an order queued, in the book as it was before
  the call, at the level whose price the trade prints.
\<close>

definition trade_at :: "heap \<Rightarrow> OrderBook \<Rightarrow> addr \<Rightarrow> Trade \<Rightarrow> bool" where
  "trade_at h ob a t \<longleftrightarrow>
     (\<exists>l \<in> set (side_tree (opposite (Order.Side (h a))) ob). \<exists>r \<in> set (PriceLevel.Orders l).
        t = make_trade (h a) (h r) (PriceLevel.Price l) (Trade.Quantity t))"

text \<open>
  What holds between the passes of a walk that started from the store \<open>h0\<close> and the book
  \<open>ob0\<close>: only fill counters and statuses have changed, the book has only lost orders, the
  incoming order is not queued on the opposing side, and every recorded trade is a trade
  with an order of the initial book at a price for which \<open>ok\<close> holds.
\<close>

definition walk_inv ::
  "(int64 \<Rightarrow> bool) \<Rightarrow> heap \<Rightarrow> OrderBook \<Rightarrow> addr \<Rightarrow> MatchState \<Rightarrow> bool" where
  "walk_inv ok h0 ob0 a s \<longleftrightarrow>
     same_static h0 (hp s)
     \<and> sub_book (bk s) ob0
     \<and> a \<notin> queued (opposite (Order.Side (h0 a))) ob0
     \<and> (\<forall>t \<in> set (Trades (res s)). trade_at h0 ob0 a t \<and> ok (Trade.Price t))"

text \<open>
  The fill counter of the incoming limit order: the local \<open>remainingQty\<close> is the quantity
  minus the filled quantity, the result's filled quantity is the order's, and the filled
  quantity lies between 0 and the quantity.
\<close>

definition limit_inv :: "addr \<Rightarrow> MatchState \<Rightarrow> bool" where
  "limit_inv a s \<longleftrightarrow>
     remainingQty s = Order.Quantity (hp s a) - Order.FilledQuantity (hp s a)
     \<and> MatchResult.FilledQuantity (res s) = Order.FilledQuantity (hp s a)
     \<and> 0 \<le> sint (Order.FilledQuantity (hp s a))
     \<and> sint (Order.FilledQuantity (hp s a)) \<le> sint (Order.Quantity (hp s a))"

text \<open>The states in which \<open>matchLimitOrder\<close> and \<open>matchMarketOrder\<close> enter their walks.\<close>

definition limit_start :: "heap \<Rightarrow> addr \<Rightarrow> OrderBook \<Rightarrow> MatchState" where
  "limit_start h a ob =
     \<lparr>hp = h, bk = ob,
      res = \<lparr>MatchResult.Status = StatusAccepted, MatchResult.FilledQuantity = 0,
             MatchResult.RemainingQuantity = Order.Quantity (h a), Trades = []\<rparr>,
      remainingQty = Order.Quantity (h a)\<rparr>"

definition market_start :: "heap \<Rightarrow> addr \<Rightarrow> OrderBook \<Rightarrow> MatchState" where
  "market_start h a ob =
     \<lparr>hp = h, bk = ob,
      res = \<lparr>MatchResult.Status = StatusFilled, MatchResult.FilledQuantity = 0,
             MatchResult.RemainingQuantity = 0, Trades = []\<rparr>,
      remainingQty = Order.Quantity (h a)\<rparr>"

text \<open>
  Every order queued in a tree carries the price of its level (what \<open>AddOrder\<close>
  establishes), and the statement on a trade for C4: it prints at the price of a level of
  the opposing side of the initial book, the resting order is queued at that level and has
  that price as its limit, and the trade names the two orders by side.
\<close>

definition levels_priced :: "heap \<Rightarrow> BTree \<Rightarrow> bool" where
  "levels_priced h t \<longleftrightarrow>
     (\<forall>l \<in> set t. \<forall>x \<in> set (PriceLevel.Orders l). Order.Price (h x) = PriceLevel.Price l)"

definition resting_trade :: "heap \<Rightarrow> OrderBook \<Rightarrow> addr \<Rightarrow> Trade \<Rightarrow> bool" where
  "resting_trade h ob a t \<longleftrightarrow>
     (\<exists>l \<in> set (side_tree (opposite (Order.Side (h a))) ob). \<exists>x \<in> set (PriceLevel.Orders l).
        Trade.Price t = PriceLevel.Price l \<and> Order.Price (h x) = Trade.Price t
        \<and> (if Order.Side (h a) = SideBuy
            then BuyOrderID t = Order.ID (h a) \<and> SellOrderID t = Order.ID (h x)
            else BuyOrderID t = Order.ID (h x) \<and> SellOrderID t = Order.ID (h a)))"

text \<open>
  Three asks at three prices (300 at 15050, 400 at 15052, 600 at 15055), and the two orders
  submitted against them: a limit buy of 800 at 15053 and a market buy of 800.
\<close>

definition ladder_heap :: heap where
  "ladder_heap =
     empty_heap(1 := ask ''a1'' 15050 300, 2 := ask ''a2'' 15052 400, 3 := ask ''a3'' 15055 600)"

definition ladder_book :: OrderBook where
  "ladder_book =
     \<lparr>OrderBook.Symbol = ''AAPL'', Bids = [],
      Asks = [\<lparr>PriceLevel.Price = 15050, PriceLevel.Orders = [1]\<rparr>,
              \<lparr>PriceLevel.Price = 15052, PriceLevel.Orders = [2]\<rparr>,
              \<lparr>PriceLevel.Price = 15055, PriceLevel.Orders = [3]\<rparr>],
      OrderBook.Orders = [''a1'' \<mapsto> 1, ''a2'' \<mapsto> 2, ''a3'' \<mapsto> 3]\<rparr>"

definition limit_buy_heap :: heap where
  "limit_buy_heap = ladder_heap(4 := NewOrder ''b4'' ''AAPL'' SideBuy TypeLimit 15053 800 0)"

definition market_buy_heap :: heap where
  "market_buy_heap = ladder_heap(4 := NewOrder ''m4'' ''AAPL'' SideBuy TypeMarket 0 800 0)"

section \<open>Evaluation of signed comparisons\<close>

lemmas signed_cmp = word_sless_alt word_sle_eq

section \<open>Running the model on concrete states\<close>

lemmas model_simps =
  signed_cmp NewOrder_def Order_RemainingQuantity_def IsFilled_def Fill_def SetStatus_def
  PriceLevelItem_Less_def PriceLevelItemAscending_Less_def NewOrderBook_def
  side_tree_def set_side_tree_def side_less_def AddOrder_def RemoveOrder_def sum_remaining_def
  best_of_def GetBestBid_def GetBestAsk_def GetOrder_def GetPriceLevelForBid_def
  GetPriceLevelForAsk_def opposite_def level_Orders_def set_level_Orders_def delete_level_def
  drop_head_def make_trade_def limitLevelStep_def limitLevelLoop.simps limitBestPrice_def
  limitWalk.simps matchLimitOrder_def totalAvailable_def marketLevelStep_def
  marketLevelLoop.simps marketBestPrice_def marketWalk.simps matchMarketOrder_def Let_def

lemmas state_simps =
  ask_def empty_heap_def asks1_heap_def asks1_book_def asks2_heap_def asks2_book_def
  asks3_heap_def asks3_book_def fresh_heap_def dup_heap_def two_sided_heap_def
  two_sided_book_def stale_heap_def ladder_heap_def ladder_book_def limit_buy_heap_def
  market_buy_heap_def

text \<open>The three books are what limit sell submissions build from the empty book.\<close>

lemma asks1_reachable:
  "matchLimitOrder (empty_heap(1 := ask ''s1'' 15050 100)) 1 (NewOrderBook ''AAPL'')
   = Some (asks1_heap, asks1_book,
       \<lparr>MatchResult.Status = StatusAccepted, MatchResult.FilledQuantity = 0,
        MatchResult.RemainingQuantity = 100, Trades = []\<rparr>)"
  by (simp add: model_simps state_simps)

lemma asks2_reachable:
  "(case matchLimitOrder (empty_heap(1 := ask ''s1'' 15050 200)) 1 (NewOrderBook ''AAPL'') of
      None \<Rightarrow> False
    | Some (h1, ob1, r1) \<Rightarrow>
       (case matchLimitOrder (h1(2 := ask ''s2'' 15050 300)) 2 ob1 of
          None \<Rightarrow> False
        | Some (h2, ob2, r2) \<Rightarrow> h2 = asks2_heap \<and> ob2 = asks2_book))"
  by (simp add: model_simps state_simps)

lemma asks3_reachable:
  "(case matchLimitOrder (asks2_heap(3 := ask ''s3'' 15050 400)) 3 asks2_book of
      None \<Rightarrow> False
    | Some (h3, ob3, r3) \<Rightarrow> h3 = asks3_heap \<and> ob3 = asks3_book)"
  by (simp add: model_simps state_simps)

lemma stale_reachable:
  "matchLimitOrder
     (asks1_heap(2 := NewOrder ''b1'' ''AAPL'' SideBuy TypeLimit 15050 100 0)) 2 asks1_book
   = Some (stale_heap, asks1_book,
       \<lparr>MatchResult.Status = StatusFilled, MatchResult.FilledQuantity = 100,
        MatchResult.RemainingQuantity = 0,
        Trades = [\<lparr>Trade.Price = 15050, Trade.Quantity = 100,
                   BuyOrderID = ''b1'', SellOrderID = ''s1''\<rparr>]\<rparr>)"
  by (simp add: model_simps state_simps)

text \<open>The two-sided book: a buy that crosses, a buy that rests below, a sell above.\<close>

lemma two_sided_reachable:
  "(case matchLimitOrder (asks3_heap(4 := NewOrder ''b4'' ''AAPL'' SideBuy TypeLimit 15045 500 0)) 4
           asks3_book of
      None \<Rightarrow> False
    | Some (h1, ob1, r1) \<Rightarrow>
       (case matchLimitOrder (h1(5 := NewOrder ''b5'' ''AAPL'' SideBuy TypeLimit 15040 100 0)) 5 ob1 of
          None \<Rightarrow> False
        | Some (h2, ob2, r2) \<Rightarrow>
           (case matchLimitOrder (h2(6 := ask ''s6'' 15055 600)) 6 ob2 of
              None \<Rightarrow> False
            | Some (h3, ob3, r3) \<Rightarrow> h3 = two_sided_heap \<and> ob3 = two_sided_book)))"
  by (simp add: model_simps state_simps)

section \<open>The price index: lookups, assignments, order\<close>

lemma bt_Get_Some_Price: "bt_Get p t = Some l \<Longrightarrow> PriceLevel.Price l = p"
  by (induction t) (auto split: if_splits)

lemma bt_Get_Some_mem: "bt_Get p t = Some l \<Longrightarrow> l \<in> set t"
  by (induction t) (auto split: if_splits)

lemma bt_Get_None_iff: "bt_Get p t = None \<longleftrightarrow> p \<notin> PriceLevel.Price ` set t"
  by (induction t) auto

lemma bt_Get_level_assign:
  "bt_Get p' (level_assign p q t) =
     (if p' = p then map_option (\<lambda>l. l\<lparr>PriceLevel.Orders := q\<rparr>) (bt_Get p t) else bt_Get p' t)"
  by (induction t) auto

lemma bt_Get_ReplaceOrInsert_same:
  "bt_Get (PriceLevel.Price item) (bt_ReplaceOrInsert lt item t) = Some item"
  by (induction t) auto

lemma bt_Get_insert_level:
  "bt_Get p (bt_ReplaceOrInsert lt \<lparr>PriceLevel.Price = p, PriceLevel.Orders = q\<rparr> t)
     = Some \<lparr>PriceLevel.Price = p, PriceLevel.Orders = q\<rparr>"
  using bt_Get_ReplaceOrInsert_same [where item = "\<lparr>PriceLevel.Price = p, PriceLevel.Orders = q\<rparr>"]
  by simp

lemma bt_Get_ReplaceOrInsert_other:
  "p \<noteq> PriceLevel.Price item \<Longrightarrow> bt_Get p (bt_ReplaceOrInsert lt item t) = bt_Get p t"
  by (induction t) auto

lemma Price_set_ReplaceOrInsert:
  "PriceLevel.Price ` set (bt_ReplaceOrInsert lt item t)
     = insert (PriceLevel.Price item) (PriceLevel.Price ` set t)"
  by (induction t) auto

lemma sorted_insert_level:
  assumes tr: "\<And>x y z. lt x y \<Longrightarrow> lt y z \<Longrightarrow> lt x z"
    and tot: "\<And>x y. x \<noteq> y \<Longrightarrow> \<not> lt x y \<Longrightarrow> lt y x"
  shows "sorted_wrt lt (map PriceLevel.Price t) \<Longrightarrow>
         sorted_wrt lt (map PriceLevel.Price (bt_ReplaceOrInsert lt item t))"
proof (induction t)
  case Nil
  show ?case by simp
next
  case (Cons l ls)
  have tail: "sorted_wrt lt (map PriceLevel.Price ls)"
    and head: "\<forall>x \<in> set ls. lt (PriceLevel.Price l) (PriceLevel.Price x)"
    using Cons.prems by simp_all
  show ?case
  proof (cases "PriceLevel.Price l = PriceLevel.Price item")
    case True
    then show ?thesis using tail head by simp
  next
    case ne: False
    show ?thesis
    proof (cases "lt (PriceLevel.Price item) (PriceLevel.Price l)")
      case True
      then have "\<forall>x \<in> set ls. lt (PriceLevel.Price item) (PriceLevel.Price x)"
        using head tr by blast
      then show ?thesis using ne True tail head by simp
    next
      case False
      then have "lt (PriceLevel.Price l) (PriceLevel.Price item)"
        using ne tot [of "PriceLevel.Price item" "PriceLevel.Price l"] by simp
      then have "\<forall>p \<in> PriceLevel.Price ` set (bt_ReplaceOrInsert lt item ls). lt (PriceLevel.Price l) p"
        using head by (simp add: Price_set_ReplaceOrInsert)
      then show ?thesis using ne False Cons.IH [OF tail] by simp
    qed
  qed
qed

lemma map_Price_level_assign:
  "map PriceLevel.Price (level_assign p q t) = map PriceLevel.Price t"
  by (induction t) auto

lemma set_bt_Delete: "set (bt_Delete p t) \<subseteq> set t"
  by (induction t) auto

lemma sorted_bt_Delete:
  "sorted_wrt lt (map PriceLevel.Price t) \<Longrightarrow> sorted_wrt lt (map PriceLevel.Price (bt_Delete p t))"
proof (induction t)
  case Nil
  show ?case by simp
next
  case (Cons l ls)
  have "\<forall>x \<in> set (bt_Delete p ls). lt (PriceLevel.Price l) (PriceLevel.Price x)"
    using Cons.prems set_bt_Delete [of p ls] by auto
  then show ?case using Cons by simp
qed

lemma sless_trans: "(x::int64) <s y \<Longrightarrow> y <s z \<Longrightarrow> x <s z"
  by (simp add: word_sless_alt)

lemma sless_total:
  assumes "(x::int64) \<noteq> y" and "\<not> x <s y"
  shows "y <s x"
proof -
  have "sint x \<noteq> sint y" using assms(1) signed_word_eqI by blast
  then show ?thesis using assms(2) by (simp add: word_sless_alt)
qed


section \<open>Market orders\<close>

text \<open>
  The liquidity pre-check: when the summed remaining quantity of the opposing side is below
  the order's quantity, \<open>matchMarketOrder\<close> returns the error with both quantities. It
  returns before any loop runs; no store and no book come back from the call.
\<close>

lemma matchMarketOrder_insufficient:
  assumes "totalAvailable h (side_tree (opposite (Order.Side (h a))) ob) <s Order.Quantity (h a)"
  shows "matchMarketOrder h a ob =
           Some (Inl \<lparr>Requested = Order.Quantity (h a),
                      Available = totalAvailable h (side_tree (opposite (Order.Side (h a))) ob)\<rparr>)"
  using assms by (simp add: matchMarketOrder_def Let_def)

text \<open>
  C2, evaluated where the code departs from it. Two asks of 200 and 300 rest at 15050, so
  500 are available; a market buy \<open>m1\<close> of 250 passes the pre-check. The first ask is
  filled and \<open>RemoveOrder\<close> takes it out of the queue; lines 318 to 322 then cut the head
  of the queue once more, which drops the untouched second ask. The level is empty, the
  walk ends, and the call reports status Filled with only 200 of 250 filled. The second
  ask stays in the id-map with nothing filled and is in no queue.
\<close>

theorem C2_market_order_evaluation:
  "totalAvailable asks2_heap (Asks asks2_book) = 500
   \<and> (case matchMarketOrder
              (asks2_heap(3 := NewOrder ''m1'' ''AAPL'' SideBuy TypeMarket 0 250 0)) 3 asks2_book of
        Some (Inr (h, ob, r)) \<Rightarrow>
          MatchResult.Status r = StatusFilled
          \<and> MatchResult.FilledQuantity r = 200
          \<and> MatchResult.RemainingQuantity r = 50
          \<and> Trades r = [\<lparr>Trade.Price = 15050, Trade.Quantity = 200,
                          BuyOrderID = ''m1'', SellOrderID = ''s1''\<rparr>]
          \<and> Order.FilledQuantity (h 2) = 0
          \<and> OrderBook.Orders ob ''s2'' = Some 2
          \<and> Asks ob = []
      | _ \<Rightarrow> False)"
  by (simp add: model_simps state_simps)

section \<open>A resting order filled together with the incoming limit order\<close>

text \<open>
  C3, evaluated where the code departs from it. The book holds one ask \<open>s1\<close> of 100 at
  15050; a limit buy \<open>b1\<close> of 100 at 15050 is submitted. One trade of 100 fills both
  orders. The inner loop of \<open>matchLimitOrder\<close> leaves through \<open>break\<close> (line 167) before it
  reaches \<open>RemoveOrder\<close> (line 171), so after the call the Filled order \<open>s1\<close> is still
  bound in the id-map and still queued at its price level.
\<close>

theorem C3_filled_resting_order_evaluation:
  "(case matchLimitOrder
           (asks1_heap(2 := NewOrder ''b1'' ''AAPL'' SideBuy TypeLimit 15050 100 0)) 2 asks1_book of
      None \<Rightarrow> False
    | Some (h, ob, r) \<Rightarrow>
        MatchResult.Status r = StatusFilled
        \<and> Trades r = [\<lparr>Trade.Price = 15050, Trade.Quantity = 100,
                        BuyOrderID = ''b1'', SellOrderID = ''s1''\<rparr>]
        \<and> Order.Status (h 1) = StatusFilled \<and> Order.FilledQuantity (h 1) = 100
        \<and> OrderBook.Orders ob ''s1'' = Some 1
        \<and> Asks ob = [\<lparr>PriceLevel.Price = 15050, PriceLevel.Orders = [1]\<rparr>])"
  by (simp add: model_simps state_simps)

section \<open>Time priority within a price level\<close>

text \<open>
  C5, evaluated where the code departs from it. Three asks of 200, 300 and 400 rest at
  15050 in that order.

  A limit buy of 500 at 15050 trades 200 with \<open>s1\<close> and then 300 with \<open>s2\<close>, as the claim
  says; but \<open>s2\<close>, Filled by the trade that also fills the incoming order, is not removed,
  so the head of the level is the Filled \<open>s2\<close> and not the third ask.

  A market buy of 250 trades 200 with \<open>s1\<close> and then 50 with \<open>s3\<close>: the second ask, admitted
  before the third, is cut from the queue without a fill.
\<close>

theorem C5_time_priority_evaluation:
  "(case matchLimitOrder
           (asks3_heap(4 := NewOrder ''b1'' ''AAPL'' SideBuy TypeLimit 15050 500 0)) 4 asks3_book of
      None \<Rightarrow> False
    | Some (h, ob, r) \<Rightarrow>
        map (\<lambda>t. (SellOrderID t, Trade.Quantity t)) (Trades r) = [(''s1'', 200), (''s2'', 300)]
        \<and> Asks ob = [\<lparr>PriceLevel.Price = 15050, PriceLevel.Orders = [2, 3]\<rparr>]
        \<and> Order.Status (h 2) = StatusFilled \<and> Order_RemainingQuantity (h 2) = 0)
   \<and> (case matchMarketOrder
              (asks3_heap(4 := NewOrder ''m1'' ''AAPL'' SideBuy TypeMarket 0 250 0)) 4 asks3_book of
        Some (Inr (h, ob, r)) \<Rightarrow>
          map (\<lambda>t. (SellOrderID t, Trade.Quantity t)) (Trades r) = [(''s1'', 200), (''s3'', 50)]
          \<and> Order.FilledQuantity (h 2) = 0 \<and> Order.FilledQuantity (h 3) = 50
          \<and> Asks ob = [\<lparr>PriceLevel.Price = 15050, PriceLevel.Orders = [3]\<rparr>]
      | _ \<Rightarrow> False)"
  by (simp add: model_simps state_simps)

section \<open>Snapshots\<close>

lemma sum_remaining_eq:
  "sum_remaining h acc q
     = acc + sum_list (map (\<lambda>a. Order.Quantity (h a) - Order.FilledQuantity (h a)) q)"
  unfolding sum_remaining_def
  by (induction q arbitrary: acc) (simp_all add: Order_RemainingQuantity_def add.assoc)

lemma ascend_snapshot_eq:
  "ascend_snapshot h depth cnt t = map (snapshot_entry h) (take (nat (depth - cnt)) t)"
proof (induction t arbitrary: cnt)
  case Nil
  show ?case by simp
next
  case (Cons l ls)
  show ?case
  proof (cases "depth \<le> cnt")
    case True
    then show ?thesis by simp
  next
    case False
    then have "nat (depth - cnt) = Suc (nat (depth - (cnt + 1)))" by simp
    then show ?thesis using False Cons [of "cnt + 1"]
      by (simp add: snapshot_entry_def sum_remaining_eq)
  qed
qed

lemma sorted_wrt_take: "sorted_wrt P xs \<Longrightarrow> sorted_wrt P (take n xs)"
  by (metis append_take_drop_id sorted_wrt_append)

lemma snapshot_prices:
  "map OrderBookSnapshot.Price (map (snapshot_entry h) t) = map PriceLevel.Price t"
  by (simp add: snapshot_entry_def)

text \<open>
  C6 (as amended). For a book whose price indexes are in order (bids strictly descending,
  asks strictly ascending) and a depth \<open>d \<ge> 0\<close>, \<open>GetOrderBookSnapshot\<close> returns, per side,
  the entries of the first \<open>d\<close> levels of the index and no others: at most \<open>d\<close> of them, in
  the order of the index, each with its price and the sum of quantity minus filled quantity
  over the level's queue. No level is filtered out. The result is a function of the store
  and the book.
\<close>

theorem C6_snapshot:
  assumes "0 \<le> d" and "index_ordered ob"
  shows "\<exists>bids asks.
           GetOrderBookSnapshot h d ob = Some (bids, asks)
           \<and> bids = map (snapshot_entry h) (take (nat d) (Bids ob))
           \<and> asks = map (snapshot_entry h) (take (nat d) (Asks ob))
           \<and> int (length bids) \<le> d \<and> int (length asks) \<le> d
           \<and> strictly_descending (map OrderBookSnapshot.Price bids)
           \<and> strictly_ascending (map OrderBookSnapshot.Price asks)"
proof -
  let ?bids = "map (snapshot_entry h) (take (nat d) (Bids ob))"
  let ?asks = "map (snapshot_entry h) (take (nat d) (Asks ob))"
  have r: "GetOrderBookSnapshot h d ob = Some (?bids, ?asks)"
    using assms(1) by (simp add: GetOrderBookSnapshot_def ascend_snapshot_eq)
  have l: "int (length ?bids) \<le> d" "int (length ?asks) \<le> d"
    using assms(1) by simp_all
  have "strictly_descending (map PriceLevel.Price (take (nat d) (Bids ob)))"
    using assms(2) unfolding index_ordered_def strictly_descending_def
    by (simp add: take_map [symmetric] sorted_wrt_take)
  then have b: "strictly_descending (map OrderBookSnapshot.Price ?bids)"
    by (simp only: snapshot_prices)
  have "strictly_ascending (map PriceLevel.Price (take (nat d) (Asks ob)))"
    using assms(2) unfolding index_ordered_def strictly_ascending_def
    by (simp add: take_map [symmetric] sorted_wrt_take)
  then have a: "strictly_ascending (map OrderBookSnapshot.Price ?asks)"
    by (simp only: snapshot_prices)
  from r l a b show ?thesis by blast
qed

text \<open>The price indexes are in order in the empty book and stay so.\<close>

lemma sorted_insert_desc:
  "strictly_descending (map PriceLevel.Price t) \<Longrightarrow>
   strictly_descending (map PriceLevel.Price (bt_ReplaceOrInsert PriceLevelItem_Less item t))"
  unfolding strictly_descending_def
  using sorted_insert_level [of PriceLevelItem_Less t item]
  by (auto simp: PriceLevelItem_Less_def [abs_def] intro: sless_trans sless_total)

lemma sorted_insert_asc:
  "strictly_ascending (map PriceLevel.Price t) \<Longrightarrow>
   strictly_ascending (map PriceLevel.Price (bt_ReplaceOrInsert PriceLevelItemAscending_Less item t))"
  unfolding strictly_ascending_def
  using sorted_insert_level [of PriceLevelItemAscending_Less t item]
  by (auto simp: PriceLevelItemAscending_Less_def [abs_def] intro: sless_trans sless_total)

lemma index_ordered_AddOrder: "index_ordered ob \<Longrightarrow> index_ordered (AddOrder h a ob)"
  by (auto simp: index_ordered_def AddOrder_def Let_def side_tree_def set_side_tree_def
      side_less_def map_Price_level_assign sorted_insert_desc sorted_insert_asc
      split: option.splits)

lemma index_ordered_RemoveOrder:
  "index_ordered ob \<Longrightarrow> index_ordered (snd (RemoveOrder h orderID ob))"
  by (auto simp: index_ordered_def RemoveOrder_def Let_def side_tree_def set_side_tree_def
      map_Price_level_assign strictly_descending_def strictly_ascending_def
      intro!: sorted_bt_Delete split: option.splits)

lemma index_ordered_NewOrderBook: "index_ordered (NewOrderBook symbol)"
  by (simp add: index_ordered_def NewOrderBook_def strictly_descending_def strictly_ascending_def)


text \<open>The theorem on the two-sided book at depth 1.\<close>

theorem C6_snapshot_witness:
  "(0::int) \<le> 1 \<and> index_ordered two_sided_book
   \<and> GetOrderBookSnapshot two_sided_heap 1 two_sided_book
       = Some ([\<lparr>OrderBookSnapshot.Price = 15045, OrderBookSnapshot.Quantity = 500\<rparr>],
               [\<lparr>OrderBookSnapshot.Price = 15050, OrderBookSnapshot.Quantity = 900\<rparr>])"
proof -
  have a: "index_ordered two_sided_book"
    by (simp add: index_ordered_def strictly_descending_def strictly_ascending_def
        two_sided_book_def signed_cmp)
  have b: "map (snapshot_entry two_sided_heap) (take (nat 1) (Bids two_sided_book))
             = [\<lparr>OrderBookSnapshot.Price = 15045, OrderBookSnapshot.Quantity = 500\<rparr>]"
    "map (snapshot_entry two_sided_heap) (take (nat 1) (Asks two_sided_book))
             = [\<lparr>OrderBookSnapshot.Price = 15050, OrderBookSnapshot.Quantity = 900\<rparr>]"
    by (simp_all add: snapshot_entry_def model_simps state_simps)
  from a b C6_snapshot [of 1 two_sided_book two_sided_heap] show ?thesis by simp
qed

text \<open>
  C6 as stated fails: in the one-ask book left by a limit buy that filled its only ask, the
  level 15050 has the aggregate quantity zero and the snapshot emits it.
\<close>

theorem C6_zero_level_counterexample:
  "index_ordered asks1_book
   \<and> sum_remaining stale_heap 0 (level_Orders SideSell 15050 asks1_book) = 0
   \<and> GetOrderBookSnapshot stale_heap 10 asks1_book
       = Some ([], [\<lparr>OrderBookSnapshot.Price = 15050, OrderBookSnapshot.Quantity = 0\<rparr>])"
  by (simp add: index_ordered_def strictly_descending_def strictly_ascending_def
      GetOrderBookSnapshot_def model_simps state_simps)

section \<open>Cancellation\<close>

lemmas handler_simps =
  SubmitOrder_def validateSubmitOrderRequest_def MatchOrder_def GetOrCreateOrderBook_def
  put_book_def CancelOrder_def GetOrderStatus_def empty_world_def

lemma partial_world_reachable:
  "(case SubmitOrder sell_300 ''id-s'' 0 empty_world of
      None \<Rightarrow> False
    | Some (r1, w1) \<Rightarrow>
        (case SubmitOrder buy_500 ''id-b'' 0 w1 of
           None \<Rightarrow> False
         | Some (r2, w2) \<Rightarrow> w2 = partial_world))"
  by (simp add: handler_simps model_simps state_simps sell_300_def buy_500_def partial_world_def)

lemma queue_world_reachable:
  "(case SubmitOrder (sell_at 15050 200) ''id-1'' 0 empty_world of
      None \<Rightarrow> False
    | Some (r1, w1) \<Rightarrow>
        (case SubmitOrder (sell_at 15050 300) ''id-2'' 0 w1 of
           None \<Rightarrow> False
         | Some (r2, w2) \<Rightarrow>
             (case SubmitOrder (sell_at 15050 400) ''id-3'' 0 w2 of
                None \<Rightarrow> False
              | Some (r3, w3) \<Rightarrow>
                  (case SubmitOrder (sell_at 15060 100) ''id-4'' 0 w3 of
                     None \<Rightarrow> False
                   | Some (r4, w4) \<Rightarrow> w4 = queue_world))))"
  by (simp add: handler_simps model_simps state_simps sell_at_def queue_world_def
      numeral_2_eq_2 [symmetric])

lemma find_order_None_iff: "find_order orderID books = None \<longleftrightarrow> \<not> indexed orderID books"
  by (induction books) (auto simp: indexed_def GetOrder_def split: option.splits)

lemma find_order_Some:
  "find_order orderID books = Some (i, a) \<Longrightarrow>
   i < length books \<and> OrderBook.Orders (snd (books ! i)) orderID = Some a"
proof (induction books arbitrary: i)
  case Nil
  then show ?case by simp
next
  case (Cons kb rest)
  show ?case
  proof (cases "GetOrder orderID (snd kb)")
    case None
    then obtain j where j: "find_order orderID rest = Some (j, a)" and i: "i = Suc j"
      using Cons.prems by auto
    from Cons.IH [OF j] i show ?thesis by simp
  next
    case (Some b)
    then show ?thesis using Cons.prems by (simp add: GetOrder_def)
  qed
qed

lemma not_indexed_update:
  assumes "indexed_only_at i orderID books" and "OrderBook.Orders ob orderID = None"
  shows "\<not> indexed orderID (books[i := (k, ob)])"
proof
  assume "indexed orderID (books[i := (k, ob)])"
  then obtain kb where kb: "kb \<in> set (books[i := (k, ob)])"
    and ne: "OrderBook.Orders (snd kb) orderID \<noteq> None"
    by (auto simp: indexed_def)
  from kb obtain j where j: "j < length books" and e: "kb = books[i := (k, ob)] ! j"
    by (auto simp: in_set_conv_nth)
  show False
  proof (cases "j = i")
    case True
    then show ?thesis using j e ne assms(2) by simp
  next
    case False
    then show ?thesis using j e ne assms(1) by (simp add: indexed_only_at_def)
  qed
qed

lemma Orders_RemoveOrder:
  "OrderBook.Orders (snd (RemoveOrder h orderID ob)) = (OrderBook.Orders ob)(orderID := None)"
  by (auto simp: RemoveOrder_def Let_def set_side_tree_def split: option.splits)

lemma strictly_sorted_distinct:
  assumes "sorted_wrt lt ps" and "\<And>x. \<not> lt x x"
  shows "distinct ps"
  using assms by (induction ps) auto

lemma index_ordered_distinct:
  "index_ordered ob \<Longrightarrow> distinct (map PriceLevel.Price (side_tree side ob))"
  unfolding index_ordered_def strictly_descending_def strictly_ascending_def side_tree_def
  by (auto intro!: strictly_sorted_distinct simp: word_sless_alt)

lemma bt_Get_bt_Delete:
  "distinct (map PriceLevel.Price t) \<Longrightarrow>
   bt_Get p' (bt_Delete p t) = (if p' = p then None else bt_Get p' t)"
  by (induction t) (auto simp: bt_Get_None_iff)

lemma side_tree_set_side_tree [simp]:
  "side_tree side (set_side_tree side t ob) = t"
  by (simp add: side_tree_def set_side_tree_def)

lemma side_tree_Orders_update [simp]:
  "side_tree side (ob\<lparr>OrderBook.Orders := m\<rparr>) = side_tree side ob"
  by (simp add: side_tree_def)

lemma distinct_level_assign:
  "distinct (map PriceLevel.Price (level_assign p q t)) = distinct (map PriceLevel.Price t)"
  by (simp add: map_Price_level_assign)

lemma level_Orders_RemoveOrder:
  assumes "OrderBook.Orders ob orderID = Some a" and "index_ordered ob"
  shows "level_Orders (Order.Side (h a)) (Order.Price (h a)) (snd (RemoveOrder h orderID ob))
           = remove_first_id h orderID (level_Orders (Order.Side (h a)) (Order.Price (h a)) ob)"
    and "remove_first_id h orderID (level_Orders (Order.Side (h a)) (Order.Price (h a)) ob) = [] \<Longrightarrow>
         bt_Get (Order.Price (h a)) (side_tree (Order.Side (h a)) (snd (RemoveOrder h orderID ob))) = None"
proof -
  let ?side = "Order.Side (h a)" and ?p = "Order.Price (h a)"
  have d: "distinct (map PriceLevel.Price (side_tree ?side ob))"
    using assms(2) by (rule index_ordered_distinct)
  show "level_Orders ?side ?p (snd (RemoveOrder h orderID ob))
           = remove_first_id h orderID (level_Orders ?side ?p ob)"
    using assms(1) d
    by (cases "bt_Get ?p (side_tree ?side ob)")
       (simp_all add: RemoveOrder_def Let_def level_Orders_def bt_Get_bt_Delete
          bt_Get_level_assign distinct_level_assign)
  show "bt_Get ?p (side_tree ?side (snd (RemoveOrder h orderID ob))) = None"
    if "remove_first_id h orderID (level_Orders ?side ?p ob) = []"
    using assms(1) d that
    by (cases "bt_Get ?p (side_tree ?side ob)")
       (simp_all add: RemoveOrder_def Let_def level_Orders_def bt_Get_bt_Delete
          bt_Get_level_assign distinct_level_assign)
qed

lemma remove_first_id_remove1:
  assumes "Order.ID (h a) = orderID" and "a \<in> set q" and "distinct (queue_ids h q)"
  shows "remove_first_id h orderID q = remove1 a q"
  using assms by (induction q) (auto simp: queue_ids_def)


lemma set_remove_first_id: "set (remove_first_id h orderID q) \<subseteq> set q"
  by (induction q) auto

lemma removed_not_queued:
  assumes "Order.ID (h a) = orderID" and "distinct (queue_ids h q)"
  shows "a \<notin> set (remove_first_id h orderID q)"
proof (cases "a \<in> set q")
  case True
  have "distinct q" using assms(2) by (simp add: queue_ids_def distinct_map)
  then show ?thesis using remove_first_id_remove1 [OF assms(1) True assms(2)] by simp
next
  case False
  then show ?thesis using set_remove_first_id [of h orderID q] by blast
qed

lemma remove_first_id_split:
  assumes "Order.ID (h x) = orderID" and "\<forall>y \<in> set pre. Order.ID (h y) \<noteq> orderID"
  shows "remove_first_id h orderID (pre @ x # post) = pre @ post"
  using assms by (induction pre) auto

lemma remove_first_id_absent:
  "\<forall>y \<in> set q. Order.ID (h y) \<noteq> orderID \<Longrightarrow> remove_first_id h orderID q = q"
  by (induction q) auto

lemma RemoveOrder_other_level:
  assumes "OrderBook.Orders ob orderID = Some a" and "index_ordered ob"
    and "p' \<noteq> Order.Price (h a)"
  shows "bt_Get p' (side_tree (Order.Side (h a)) (snd (RemoveOrder h orderID ob)))
           = bt_Get p' (side_tree (Order.Side (h a)) ob)"
proof -
  let ?side = "Order.Side (h a)" and ?p = "Order.Price (h a)"
  have d: "distinct (map PriceLevel.Price (side_tree ?side ob))"
    using assms(2) by (rule index_ordered_distinct)
  show ?thesis
    using assms(1,3) d
    by (cases "bt_Get ?p (side_tree ?side ob)")
       (simp_all add: RemoveOrder_def Let_def bt_Get_bt_Delete bt_Get_level_assign
          distinct_level_assign)
qed

lemma RemoveOrder_other_side:
  assumes "OrderBook.Orders ob orderID = Some a"
  shows "side_tree (opposite (Order.Side (h a))) (snd (RemoveOrder h orderID ob))
           = side_tree (opposite (Order.Side (h a))) ob"
  using assms
  by (cases "bt_Get (Order.Price (h a)) (side_tree (Order.Side (h a)) ob)";
      cases "Order.Side (h a)")
     (simp_all add: RemoveOrder_def Let_def side_tree_def set_side_tree_def opposite_def)

lemma Symbol_RemoveOrder:
  "OrderBook.Symbol (snd (RemoveOrder h orderID ob)) = OrderBook.Symbol ob"
  by (auto simp: RemoveOrder_def Let_def set_side_tree_def split: option.splits)

text \<open>
  C7. \<open>CancelOrder\<close> answers not-found exactly when no book indexes the id, and changes
  nothing unless it succeeds. When the search finds the id, bound to the order at \<open>a\<close> in
  the book at position \<open>i\<close>: the answer is already-filled exactly when that order's status
  is Filled and success otherwise, so a PartialFill order is cancelled. On success the order
  is marked Cancelled, its id is taken out of that book's id-map, no other book changes, and
  in that book the symbol and the opposite side stay as they were. In a book whose price
  indexes are in order, the indexes stay in order; the queue at the order's side and price
  loses the first order that carries the id and keeps every other order in its place (it
  is unchanged when no queued order carries the id); when the order is queued there under
  the id and the ids of the queue do not repeat, the queue afterwards is the queue before
  with exactly this order taken out; the level is gone from the index when its queue has
  become empty; and the levels at every other price are untouched. When no other book
  indexes the id, a second cancel and a status lookup both answer not-found.
\<close>

theorem C7_cancel:
  "(fst (CancelOrder orderID w) = CancelNotFound \<longleftrightarrow> \<not> indexed orderID (OrderBooks w))
   \<and> (fst (CancelOrder orderID w) \<noteq> CancelOK \<longrightarrow> snd (CancelOrder orderID w) = w)
   \<and> (\<forall>i a. find_order orderID (OrderBooks w) = Some (i, a) \<longrightarrow>
         i < length (OrderBooks w)
         \<and> OrderBook.Orders (snd (OrderBooks w ! i)) orderID = Some a
         \<and> (fst (CancelOrder orderID w) = CancelAlreadyFilled
              \<longleftrightarrow> Order.Status (heap w a) = StatusFilled)
         \<and> (fst (CancelOrder orderID w) = CancelOK
              \<longleftrightarrow> Order.Status (heap w a) \<noteq> StatusFilled)
         \<and> (Order.Status (heap w a) = StatusPartialFill
              \<longrightarrow> fst (CancelOrder orderID w) = CancelOK)
         \<and> (Order.Status (heap w a) \<noteq> StatusFilled \<longrightarrow>
              (\<exists>ob'. snd (CancelOrder orderID w)
                       = w\<lparr>heap := (heap w)(a := (heap w a)\<lparr>Order.Status := StatusCancelled\<rparr>),
                           OrderBooks := (OrderBooks w)[i := (fst (OrderBooks w ! i), ob')]\<rparr>
                 \<and> OrderBook.Orders ob'
                     = (OrderBook.Orders (snd (OrderBooks w ! i)))(orderID := None)
                 \<and> OrderBook.Symbol ob' = OrderBook.Symbol (snd (OrderBooks w ! i))
                 \<and> side_tree (opposite (Order.Side (heap w a))) ob'
                     = side_tree (opposite (Order.Side (heap w a))) (snd (OrderBooks w ! i))
                 \<and> (index_ordered (snd (OrderBooks w ! i)) \<longrightarrow>
                      index_ordered ob'
                      \<and> (\<forall>pre x post.
                            level_Orders (Order.Side (heap w a)) (Order.Price (heap w a))
                               (snd (OrderBooks w ! i)) = pre @ x # post
                            \<and> Order.ID (heap w x) = orderID
                            \<and> (\<forall>y \<in> set pre. Order.ID (heap w y) \<noteq> orderID)
                            \<longrightarrow> level_Orders (Order.Side (heap w a)) (Order.Price (heap w a)) ob'
                                  = pre @ post)
                      \<and> ((\<forall>y \<in> set (level_Orders (Order.Side (heap w a)) (Order.Price (heap w a))
                                       (snd (OrderBooks w ! i))). Order.ID (heap w y) \<noteq> orderID)
                            \<longrightarrow> level_Orders (Order.Side (heap w a)) (Order.Price (heap w a)) ob'
                                  = level_Orders (Order.Side (heap w a)) (Order.Price (heap w a))
                                      (snd (OrderBooks w ! i)))
                      \<and> (a \<in> set (level_Orders (Order.Side (heap w a)) (Order.Price (heap w a))
                                     (snd (OrderBooks w ! i)))
                          \<and> Order.ID (heap w a) = orderID
                          \<and> distinct (queue_ids (heap w)
                                (level_Orders (Order.Side (heap w a)) (Order.Price (heap w a))
                                   (snd (OrderBooks w ! i))))
                           \<longrightarrow> level_Orders (Order.Side (heap w a)) (Order.Price (heap w a)) ob'
                                 = remove1 a
                                     (level_Orders (Order.Side (heap w a)) (Order.Price (heap w a))
                                        (snd (OrderBooks w ! i))))
                      \<and> (Order.ID (heap w a) = orderID
                          \<and> distinct (queue_ids (heap w)
                                (level_Orders (Order.Side (heap w a)) (Order.Price (heap w a))
                                   (snd (OrderBooks w ! i))))
                           \<longrightarrow> a \<notin> set (level_Orders (Order.Side (heap w a))
                                             (Order.Price (heap w a)) ob'))
                      \<and> (level_Orders (Order.Side (heap w a)) (Order.Price (heap w a)) ob' = []
                           \<longrightarrow> bt_Get (Order.Price (heap w a))
                                 (side_tree (Order.Side (heap w a)) ob') = None)
                      \<and> (\<forall>p'. p' \<noteq> Order.Price (heap w a) \<longrightarrow>
                            bt_Get p' (side_tree (Order.Side (heap w a)) ob')
                              = bt_Get p' (side_tree (Order.Side (heap w a))
                                             (snd (OrderBooks w ! i)))))
                 \<and> (indexed_only_at i orderID (OrderBooks w) \<longrightarrow>
                      fst (CancelOrder orderID (snd (CancelOrder orderID w))) = CancelNotFound
                      \<and> GetOrderStatus orderID (snd (CancelOrder orderID w)) = None))))"
proof (intro conjI allI impI)
  show "fst (CancelOrder orderID w) = CancelNotFound \<longleftrightarrow> \<not> indexed orderID (OrderBooks w)"
    using find_order_None_iff [of orderID "OrderBooks w"]
    by (auto simp: CancelOrder_def Let_def split: option.splits)
next
  assume "fst (CancelOrder orderID w) \<noteq> CancelOK"
  then show "snd (CancelOrder orderID w) = w"
    by (auto simp: CancelOrder_def Let_def split: option.splits if_splits)
next
  fix i a
  assume f: "find_order orderID (OrderBooks w) = Some (i, a)"
  show "i < length (OrderBooks w)" using find_order_Some [OF f] by simp
  show "OrderBook.Orders (snd (OrderBooks w ! i)) orderID = Some a"
    using find_order_Some [OF f] by simp
  show "fst (CancelOrder orderID w) = CancelAlreadyFilled
          \<longleftrightarrow> Order.Status (heap w a) = StatusFilled"
    using f by (simp add: CancelOrder_def Let_def)
  show "fst (CancelOrder orderID w) = CancelOK \<longleftrightarrow> Order.Status (heap w a) \<noteq> StatusFilled"
    using f by (simp add: CancelOrder_def Let_def)
  show "fst (CancelOrder orderID w) = CancelOK" if "Order.Status (heap w a) = StatusPartialFill"
    using f that by (simp add: CancelOrder_def Let_def)
next
  fix i a
  assume f: "find_order orderID (OrderBooks w) = Some (i, a)"
    and nf: "Order.Status (heap w a) \<noteq> StatusFilled"
  let ?h = "heap w"
  let ?S = "Order.Side (heap w a)" and ?P = "Order.Price (heap w a)"
  let ?ob = "snd (OrderBooks w ! i)"
  let ?ob' = "snd (RemoveOrder (heap w) orderID ?ob)"
  let ?Q = "level_Orders ?S ?P ?ob" and ?Q' = "level_Orders ?S ?P ?ob'"
  let ?w' = "w\<lparr>heap := (heap w)(a := (heap w a)\<lparr>Order.Status := StatusCancelled\<rparr>),
               OrderBooks := (OrderBooks w)[i := (fst (OrderBooks w ! i), ?ob')]\<rparr>"
  have m: "OrderBook.Orders ?ob orderID = Some a" using find_order_Some [OF f] by simp
  have c: "snd (CancelOrder orderID w) = ?w'"
    using f nf by (simp add: CancelOrder_def Let_def SetStatus_def)
  have o: "OrderBook.Orders ?ob' = (OrderBook.Orders ?ob)(orderID := None)"
    by (rule Orders_RemoveOrder)
  have sy: "OrderBook.Symbol ?ob' = OrderBook.Symbol ?ob"
    by (rule Symbol_RemoveOrder)
  have os: "side_tree (opposite ?S) ?ob' = side_tree (opposite ?S) ?ob"
    using m by (rule RemoveOrder_other_side)
  have q: "index_ordered ?ob'
           \<and> (\<forall>pre x post.
                 ?Q = pre @ x # post \<and> Order.ID (?h x) = orderID
                 \<and> (\<forall>y \<in> set pre. Order.ID (?h y) \<noteq> orderID)
                 \<longrightarrow> ?Q' = pre @ post)
           \<and> ((\<forall>y \<in> set ?Q. Order.ID (?h y) \<noteq> orderID) \<longrightarrow> ?Q' = ?Q)
           \<and> (a \<in> set ?Q \<and> Order.ID (?h a) = orderID \<and> distinct (queue_ids ?h ?Q)
                \<longrightarrow> ?Q' = remove1 a ?Q)
           \<and> (Order.ID (?h a) = orderID \<and> distinct (queue_ids ?h ?Q) \<longrightarrow> a \<notin> set ?Q')
           \<and> (?Q' = [] \<longrightarrow> bt_Get ?P (side_tree ?S ?ob') = None)
           \<and> (\<forall>p'. p' \<noteq> ?P \<longrightarrow> bt_Get p' (side_tree ?S ?ob') = bt_Get p' (side_tree ?S ?ob))"
    if io: "index_ordered ?ob"
  proof -
    have e: "?Q' = remove_first_id ?h orderID ?Q"
      using m io by (rule level_Orders_RemoveOrder(1))
    have q1: "index_ordered ?ob'" using io by (rule index_ordered_RemoveOrder)
    have q2: "\<forall>pre x post.
                 ?Q = pre @ x # post \<and> Order.ID (?h x) = orderID
                 \<and> (\<forall>y \<in> set pre. Order.ID (?h y) \<noteq> orderID)
                 \<longrightarrow> ?Q' = pre @ post"
    proof (intro allI impI)
      fix pre x post
      assume a: "?Q = pre @ x # post \<and> Order.ID (?h x) = orderID
                 \<and> (\<forall>y \<in> set pre. Order.ID (?h y) \<noteq> orderID)"
      have "remove_first_id ?h orderID (pre @ x # post) = pre @ post"
        using a by (intro remove_first_id_split) simp_all
      then show "?Q' = pre @ post" using e a by simp
    qed
    have q3: "(\<forall>y \<in> set ?Q. Order.ID (?h y) \<noteq> orderID) \<longrightarrow> ?Q' = ?Q"
      using e remove_first_id_absent [of ?Q ?h orderID] by simp
    have q4: "a \<in> set ?Q \<and> Order.ID (?h a) = orderID \<and> distinct (queue_ids ?h ?Q)
                \<longrightarrow> ?Q' = remove1 a ?Q"
      using e remove_first_id_remove1 [of ?h a orderID ?Q] by simp
    have q5: "Order.ID (?h a) = orderID \<and> distinct (queue_ids ?h ?Q) \<longrightarrow> a \<notin> set ?Q'"
      using e removed_not_queued [of ?h a orderID ?Q] by simp
    have q6: "?Q' = [] \<longrightarrow> bt_Get ?P (side_tree ?S ?ob') = None"
      using e level_Orders_RemoveOrder(2) [OF m io, of ?h] by simp
    have q7: "\<forall>p'. p' \<noteq> ?P \<longrightarrow> bt_Get p' (side_tree ?S ?ob') = bt_Get p' (side_tree ?S ?ob)"
      using RemoveOrder_other_level [OF m io] by blast
    from q1 q2 q3 q4 q5 q6 q7 show ?thesis by (intro conjI)
  qed
  have s: "fst (CancelOrder orderID (snd (CancelOrder orderID w))) = CancelNotFound
           \<and> GetOrderStatus orderID (snd (CancelOrder orderID w)) = None"
    if "indexed_only_at i orderID (OrderBooks w)"
  proof -
    have "\<not> indexed orderID (OrderBooks ?w')"
      using not_indexed_update [OF that, of ?ob' "fst (OrderBooks w ! i)"] o by simp
    then have "find_order orderID (OrderBooks ?w') = None"
      by (simp add: find_order_None_iff)
    then show ?thesis unfolding c by (simp add: CancelOrder_def GetOrderStatus_def)
  qed
  show "\<exists>ob'. snd (CancelOrder orderID w)
                 = w\<lparr>heap := (heap w)(a := (heap w a)\<lparr>Order.Status := StatusCancelled\<rparr>),
                     OrderBooks := (OrderBooks w)[i := (fst (OrderBooks w ! i), ob')]\<rparr>
           \<and> OrderBook.Orders ob' = (OrderBook.Orders ?ob)(orderID := None)
           \<and> OrderBook.Symbol ob' = OrderBook.Symbol ?ob
           \<and> side_tree (opposite ?S) ob' = side_tree (opposite ?S) ?ob
           \<and> (index_ordered ?ob \<longrightarrow>
                index_ordered ob'
                \<and> (\<forall>pre x post.
                      ?Q = pre @ x # post \<and> Order.ID (?h x) = orderID
                      \<and> (\<forall>y \<in> set pre. Order.ID (?h y) \<noteq> orderID)
                      \<longrightarrow> level_Orders ?S ?P ob' = pre @ post)
                \<and> ((\<forall>y \<in> set ?Q. Order.ID (?h y) \<noteq> orderID) \<longrightarrow> level_Orders ?S ?P ob' = ?Q)
                \<and> (a \<in> set ?Q \<and> Order.ID (?h a) = orderID \<and> distinct (queue_ids ?h ?Q)
                     \<longrightarrow> level_Orders ?S ?P ob' = remove1 a ?Q)
                \<and> (Order.ID (?h a) = orderID \<and> distinct (queue_ids ?h ?Q)
                     \<longrightarrow> a \<notin> set (level_Orders ?S ?P ob'))
                \<and> (level_Orders ?S ?P ob' = [] \<longrightarrow> bt_Get ?P (side_tree ?S ob') = None)
                \<and> (\<forall>p'. p' \<noteq> ?P \<longrightarrow>
                      bt_Get p' (side_tree ?S ob') = bt_Get p' (side_tree ?S ?ob)))
           \<and> (indexed_only_at i orderID (OrderBooks w) \<longrightarrow>
                fst (CancelOrder orderID (snd (CancelOrder orderID w))) = CancelNotFound
                \<and> GetOrderStatus orderID (snd (CancelOrder orderID w)) = None)"
    apply (rule exI [of _ ?ob'])
    apply (rule conjI, rule c)
    apply (rule conjI, rule o)
    apply (rule conjI, rule sy)
    apply (rule conjI, rule os)
    apply (rule conjI, rule impI, rule q, assumption)
    apply (rule impI, rule s, assumption)
    done
qed


text \<open>
  The theorem at four cancels. The partially filled buy is cancelled, its level leaves the
  index, and cancelling or looking it up again answers not-found; the id of the filled and
  removed sell is unknown; the Filled ask that is still indexed answers already-filled.
  In the book of four sells, cancelling \<open>id-2\<close>, queued between \<open>id-1\<close> and \<open>id-3\<close>, leaves
  these two queued in their order and leaves the level at 15060 as it was.
\<close>

theorem C7_cancel_witness:
  "find_order ''id-b'' (OrderBooks partial_world) = Some (0, 1)
   \<and> Order.Status (heap partial_world 1) = StatusPartialFill
   \<and> index_ordered (snd (OrderBooks partial_world ! 0))
   \<and> indexed_only_at 0 ''id-b'' (OrderBooks partial_world)
   \<and> CancelOrder ''id-b'' partial_world = (CancelOK, cancelled_world)
   \<and> Bids (snd (OrderBooks cancelled_world ! 0)) = []
   \<and> fst (CancelOrder ''id-b'' (snd (CancelOrder ''id-b'' partial_world))) = CancelNotFound
   \<and> GetOrderStatus ''id-b'' (snd (CancelOrder ''id-b'' partial_world)) = None
   \<and> \<not> indexed ''id-s'' (OrderBooks partial_world)
   \<and> fst (CancelOrder ''id-s'' partial_world) = CancelNotFound
   \<and> find_order ''s1'' (OrderBooks filled_world) = Some (0, 1)
   \<and> Order.Status (heap filled_world 1) = StatusFilled
   \<and> CancelOrder ''s1'' filled_world = (CancelAlreadyFilled, filled_world)
   \<and> find_order ''id-2'' (OrderBooks queue_world) = Some (0, 1)
   \<and> Order.Status (heap queue_world 1) = StatusAccepted
   \<and> index_ordered (snd (OrderBooks queue_world ! 0))
   \<and> level_Orders SideSell 15050 (snd (OrderBooks queue_world ! 0)) = [0, 1, 2]
   \<and> distinct (queue_ids (heap queue_world) [0, 1, 2])
   \<and> fst (CancelOrder ''id-2'' queue_world) = CancelOK
   \<and> level_Orders SideSell 15050 (snd (OrderBooks (snd (CancelOrder ''id-2'' queue_world)) ! 0))
       = [0, 2]
   \<and> level_Orders SideSell 15060 (snd (OrderBooks (snd (CancelOrder ''id-2'' queue_world)) ! 0))
       = [3]
   \<and> CancelOrder ''id-2'' queue_world = (CancelOK, queue_world_cancelled)"
proof -
  have f: "find_order ''id-b'' (OrderBooks partial_world) = Some (0, 1)"
    by (simp add: partial_world_def GetOrder_def)
  have st: "Order.Status (heap partial_world 1) = StatusPartialFill"
           "Order.Status (heap partial_world 1) \<noteq> StatusFilled"
    by (simp_all add: partial_world_def)
  have io: "index_ordered (snd (OrderBooks partial_world ! 0))"
    by (simp add: partial_world_def index_ordered_def strictly_descending_def
        strictly_ascending_def)
  have only: "indexed_only_at 0 ''id-b'' (OrderBooks partial_world)"
    by (simp add: partial_world_def indexed_only_at_def)
  have c: "CancelOrder ''id-b'' partial_world = (CancelOK, cancelled_world)"
    by (simp add: partial_world_def cancelled_world_def handler_simps model_simps
        state_simps fun_upd_twist)
  have b: "Bids (snd (OrderBooks cancelled_world ! 0)) = []"
    by (simp add: cancelled_world_def)
  have ni: "\<not> indexed ''id-s'' (OrderBooks partial_world)"
    by (simp add: partial_world_def indexed_def)
  have f2: "find_order ''s1'' (OrderBooks filled_world) = Some (0, 1)"
    by (simp add: filled_world_def asks1_book_def GetOrder_def)
  have st2: "Order.Status (heap filled_world 1) = StatusFilled"
    by (simp add: filled_world_def state_simps)
  note t1 = C7_cancel [of "''id-b''" partial_world]
  note t2 = C7_cancel [of "''id-s''" partial_world]
  note t3 = C7_cancel [of "''s1''" filled_world]
  have again: "fst (CancelOrder ''id-b'' (snd (CancelOrder ''id-b'' partial_world))) = CancelNotFound
               \<and> GetOrderStatus ''id-b'' (snd (CancelOrder ''id-b'' partial_world)) = None"
    using t1 f st(2) only by blast
  have nf: "fst (CancelOrder ''id-s'' partial_world) = CancelNotFound"
    using t2 ni by blast
  have af: "fst (CancelOrder ''s1'' filled_world) = CancelAlreadyFilled"
    using t3 f2 st2 by blast
  then have "snd (CancelOrder ''s1'' filled_world) = filled_world"
    using t3 by simp
  with af have af2: "CancelOrder ''s1'' filled_world = (CancelAlreadyFilled, filled_world)"
    by (metis prod.collapse)
  let ?w = queue_world
  let ?ob = "snd (OrderBooks queue_world ! 0)"
  have f4: "find_order ''id-2'' (OrderBooks ?w) = Some (0, 1)"
    by (simp add: queue_world_def GetOrder_def)
  have st4: "Order.Status (heap ?w 1) = StatusAccepted" "Order.Status (heap ?w 1) \<noteq> StatusFilled"
    by (simp_all add: queue_world_def NewOrder_def)
  have sp4: "Order.Side (heap ?w 1) = SideSell" "Order.Price (heap ?w 1) = 15050"
    "Order.ID (heap ?w 1) = ''id-2''"
    by (simp_all add: queue_world_def NewOrder_def)
  have io4: "index_ordered ?ob"
    by (simp add: queue_world_def index_ordered_def strictly_descending_def
        strictly_ascending_def signed_cmp)
  have q4: "level_Orders SideSell 15050 ?ob = [0, 1, 2]"
    by (simp add: queue_world_def level_Orders_def side_tree_def)
  have d4: "distinct (queue_ids (heap ?w) [0, 1, 2])"
    by (simp add: queue_world_def queue_ids_def NewOrder_def)
  from C7_cancel [of "''id-2''" queue_world] f4 st4(2)
  obtain ob' where w': "snd (CancelOrder ''id-2'' ?w)
        = ?w\<lparr>heap := (heap ?w)(1 := (heap ?w 1)\<lparr>Order.Status := StatusCancelled\<rparr>),
             OrderBooks := (OrderBooks ?w)[0 := (fst (OrderBooks ?w ! 0), ob')]\<rparr>"
    and r: "index_ordered ?ob \<longrightarrow>
              (1 \<in> set (level_Orders (Order.Side (heap ?w 1)) (Order.Price (heap ?w 1)) ?ob)
               \<and> Order.ID (heap ?w 1) = ''id-2''
               \<and> distinct (queue_ids (heap ?w)
                     (level_Orders (Order.Side (heap ?w 1)) (Order.Price (heap ?w 1)) ?ob))
               \<longrightarrow> level_Orders (Order.Side (heap ?w 1)) (Order.Price (heap ?w 1)) ob'
                     = remove1 1
                         (level_Orders (Order.Side (heap ?w 1)) (Order.Price (heap ?w 1)) ?ob))
              \<and> (\<forall>p'. p' \<noteq> Order.Price (heap ?w 1) \<longrightarrow>
                    bt_Get p' (side_tree (Order.Side (heap ?w 1)) ob')
                      = bt_Get p' (side_tree (Order.Side (heap ?w 1)) ?ob))"
    and ok4: "fst (CancelOrder ''id-2'' ?w) = CancelOK"
    by blast
  have ob': "snd (OrderBooks (snd (CancelOrder ''id-2'' ?w)) ! 0) = ob'"
    unfolding w' by (simp add: queue_world_def)
  note r' = r [unfolded sp4 q4]
  have mem: "(1::nat) \<in> set [0, 1, 2]" and ne: "(15060::int64) \<noteq> 15050" by simp_all
  have k1: "level_Orders SideSell 15050 ob' = remove1 1 [0, 1, 2]"
    using r' io4 mem d4 by blast
  have "bt_Get 15060 (side_tree SideSell ob') = bt_Get 15060 (side_tree SideSell ?ob)"
    using r' io4 ne by blast
  then have k2: "level_Orders SideSell 15060 ob' = [3]"
    by (simp add: level_Orders_def queue_world_def side_tree_def)
  have new1: "level_Orders SideSell 15050
                (snd (OrderBooks (snd (CancelOrder ''id-2'' ?w)) ! 0)) = [0, 2]"
    unfolding ob' using k1 by simp
  have new2: "level_Orders SideSell 15060
                (snd (OrderBooks (snd (CancelOrder ''id-2'' ?w)) ! 0)) = [3]"
    unfolding ob' by (rule k2)
  have c4: "CancelOrder ''id-2'' queue_world = (CancelOK, queue_world_cancelled)"
    by (simp add: queue_world_def queue_world_cancelled_def handler_simps model_simps
        state_simps fun_upd_twist)
  note again1 = again [THEN conjunct1] and again2 = again [THEN conjunct2]
  from f st(1) io only c b again1 again2 ni nf f2 st2 af2 f4 st4(1) io4 q4 d4 ok4 new1 new2 c4
  show ?thesis by (intro conjI)
qed

section \<open>Adding an order to the book\<close>

lemma tree_ids_insert_empty:
  "bt_Get p t = None \<Longrightarrow>
   tree_ids h (bt_ReplaceOrInsert lt \<lparr>PriceLevel.Price = p, PriceLevel.Orders = []\<rparr> t) = tree_ids h t"
  by (induction t) (auto simp: tree_ids_def queue_ids_def split: if_splits)

lemma tree_ids_level_assign:
  "bt_Get p t = Some l \<Longrightarrow>
   mset (tree_ids h (level_assign p q t)) + mset (queue_ids h (PriceLevel.Orders l))
     = mset (tree_ids h t) + mset (queue_ids h q)"
  by (induction t) (auto simp: tree_ids_def queue_ids_def split: if_splits)

lemma level_Orders_AddOrder:
  "level_Orders (Order.Side (h a)) (Order.Price (h a)) (AddOrder h a ob)
     = level_Orders (Order.Side (h a)) (Order.Price (h a)) ob @ [a]"
  by (cases "bt_Get (Order.Price (h a)) (side_tree (Order.Side (h a)) ob)")
     (auto simp: AddOrder_def level_Orders_def side_tree_def set_side_tree_def Let_def
        bt_Get_level_assign bt_Get_insert_level)

lemma side_tree_AddOrder_other:
  "side \<noteq> Order.Side (h a) \<Longrightarrow> side_tree side (AddOrder h a ob) = side_tree side ob"
  by (cases side; cases "Order.Side (h a)")
     (auto simp: AddOrder_def side_tree_def set_side_tree_def Let_def)

lemma tree_ids_AddOrder_same:
  "mset (tree_ids h (side_tree (Order.Side (h a)) (AddOrder h a ob)))
     = mset (tree_ids h (side_tree (Order.Side (h a)) ob)) + {#Order.ID (h a)#}"
proof (cases "bt_Get (Order.Price (h a)) (side_tree (Order.Side (h a)) ob)")
  case None
  let ?p = "Order.Price (h a)"
  let ?t = "side_tree (Order.Side (h a)) ob"
  let ?t1 = "bt_ReplaceOrInsert (side_less (Order.Side (h a)))
               \<lparr>PriceLevel.Price = ?p, PriceLevel.Orders = []\<rparr> ?t"
  have g: "bt_Get ?p ?t1 = Some \<lparr>PriceLevel.Price = ?p, PriceLevel.Orders = []\<rparr>"
    by (rule bt_Get_insert_level)
  have "side_tree (Order.Side (h a)) (AddOrder h a ob) = level_assign ?p ([] @ [a]) ?t1"
    using None g by (auto simp: AddOrder_def side_tree_def set_side_tree_def Let_def)
  moreover have "mset (tree_ids h (level_assign ?p ([] @ [a]) ?t1)) = mset (tree_ids h ?t1) + {#Order.ID (h a)#}"
    using tree_ids_level_assign [OF g, of h "[] @ [a]"] by (simp add: queue_ids_def)
  ultimately show ?thesis using tree_ids_insert_empty [OF None] by simp
next
  case (Some l)
  let ?p = "Order.Price (h a)"
  let ?t = "side_tree (Order.Side (h a)) ob"
  have "side_tree (Order.Side (h a)) (AddOrder h a ob) = level_assign ?p (PriceLevel.Orders l @ [a]) ?t"
    using Some by (auto simp: AddOrder_def side_tree_def set_side_tree_def Let_def)
  then show ?thesis
    using tree_ids_level_assign [OF Some, of h "PriceLevel.Orders l @ [a]"]
    by (simp add: queue_ids_def)
qed

lemma book_ids_AddOrder:
  "mset (book_ids h (AddOrder h a ob)) = mset (book_ids h ob) + {#Order.ID (h a)#}"
proof (cases "Order.Side (h a)")
  case SideBuy
  then have "Bids (AddOrder h a ob) = side_tree (Order.Side (h a)) (AddOrder h a ob)"
    and "Bids ob = side_tree (Order.Side (h a)) ob"
    and "Asks (AddOrder h a ob) = Asks ob"
    using side_tree_AddOrder_other [of SideSell h a ob] by (simp_all add: side_tree_def)
  then show ?thesis using tree_ids_AddOrder_same [of h a ob] by (simp add: book_ids_def)
next
  case SideSell
  then have "Asks (AddOrder h a ob) = side_tree (Order.Side (h a)) (AddOrder h a ob)"
    and "Asks ob = side_tree (Order.Side (h a)) ob"
    and "Bids (AddOrder h a ob) = Bids ob"
    using side_tree_AddOrder_other [of SideBuy h a ob] by (simp_all add: side_tree_def)
  then show ?thesis using tree_ids_AddOrder_same [of h a ob] by (simp add: book_ids_def)
qed

lemma Orders_AddOrder:
  "OrderBook.Orders (AddOrder h a ob) = (OrderBook.Orders ob)(Order.ID (h a) \<mapsto> a)"
  by (simp add: AddOrder_def set_side_tree_def Let_def)

text \<open>
  C8 (as amended). \<open>AddOrder\<close> has no failure and no test for an id that is already
  indexed. It binds the order's id in the id-map to the order, replacing an earlier binding,
  and puts the order at the tail of the queue of its side and price. The ids queued in the
  book grow by exactly the added id; they stay free of repetition when the added id was
  not queued before.
\<close>

theorem C8_AddOrder:
  "OrderBook.Orders (AddOrder h a ob) = (OrderBook.Orders ob)(Order.ID (h a) \<mapsto> a)
   \<and> level_Orders (Order.Side (h a)) (Order.Price (h a)) (AddOrder h a ob)
       = level_Orders (Order.Side (h a)) (Order.Price (h a)) ob @ [a]
   \<and> mset (book_ids h (AddOrder h a ob)) = mset (book_ids h ob) + {#Order.ID (h a)#}
   \<and> (distinct (book_ids h ob) \<and> Order.ID (h a) \<notin> set (book_ids h ob)
        \<longrightarrow> distinct (book_ids h (AddOrder h a ob)))"
proof (intro conjI impI)
  assume d: "distinct (book_ids h ob) \<and> Order.ID (h a) \<notin> set (book_ids h ob)"
  have "distinct (book_ids h ob @ [Order.ID (h a)])" using d by simp
  moreover have "mset (book_ids h (AddOrder h a ob)) = mset (book_ids h ob @ [Order.ID (h a)])"
    by (simp add: book_ids_AddOrder)
  ultimately show "distinct (book_ids h (AddOrder h a ob))"
    by (metis mset_eq_imp_distinct_iff)
qed (rule Orders_AddOrder level_Orders_AddOrder book_ids_AddOrder)+


text \<open>The theorem on the one-ask book and an order with the new id \<open>s2\<close>.\<close>

theorem C8_AddOrder_witness:
  "distinct (book_ids fresh_heap asks1_book)
   \<and> Order.ID (fresh_heap 2) \<notin> set (book_ids fresh_heap asks1_book)
   \<and> distinct (book_ids fresh_heap (AddOrder fresh_heap 2 asks1_book))
   \<and> level_Orders SideSell 15050 (AddOrder fresh_heap 2 asks1_book) = [1, 2]"
proof -
  have a: "distinct (book_ids fresh_heap asks1_book)
           \<and> Order.ID (fresh_heap 2) \<notin> set (book_ids fresh_heap asks1_book)"
    by (simp add: book_ids_def tree_ids_def queue_ids_def model_simps state_simps)
  have b: "level_Orders SideSell 15050 (AddOrder fresh_heap 2 asks1_book) = [1, 2]"
    by (simp add: model_simps state_simps)
  from a b C8_AddOrder [of fresh_heap 2 asks1_book] show ?thesis by blast
qed

text \<open>
  C8 as stated fails: the id \<open>s1\<close> is indexed in the one-ask book, and adding a second
  order with the id \<open>s1\<close> is not refused. The book changes, the id-map entry now points to
  the new order, and the id is queued twice.
\<close>

theorem C8_duplicate_id_counterexample:
  "OrderBook.Orders asks1_book (Order.ID (dup_heap 2)) = Some 1
   \<and> AddOrder dup_heap 2 asks1_book \<noteq> asks1_book
   \<and> OrderBook.Orders (AddOrder dup_heap 2 asks1_book) ''s1'' = Some 2
   \<and> book_ids dup_heap (AddOrder dup_heap 2 asks1_book) = [''s1'', ''s1'']"
proof -
  have "Asks (AddOrder dup_heap 2 asks1_book) \<noteq> Asks asks1_book"
    by (simp add: model_simps state_simps)
  then have "AddOrder dup_heap 2 asks1_book \<noteq> asks1_book" by metis
  then show ?thesis
    by (simp add: book_ids_def tree_ids_def queue_ids_def model_simps state_simps)
qed

section \<open>Input validation\<close>

text \<open>
  C9 (as amended). \<open>SubmitOrder\<close> rejects a request exactly when its symbol is empty, its
  side is neither BUY nor SELL, its type is neither LIMIT nor MARKET, its quantity is not
  strictly positive, or it is a LIMIT request whose price is not strictly positive. A
  rejected request leaves the whole process state, hence every book, as it was. Every
  other request, a MARKET request with any price included, is turned into an order and
  handed to \<open>MatchOrder\<close>, whose outcome is the answer.
\<close>

theorem C9_validation:
  "(validateSubmitOrderRequest req \<noteq> None \<longleftrightarrow>
      SubmitOrderRequest.Symbol req = []
      \<or> (SubmitOrderRequest.Side req \<noteq> ''BUY'' \<and> SubmitOrderRequest.Side req \<noteq> ''SELL'')
      \<or> (SubmitOrderRequest.Type req \<noteq> ''LIMIT'' \<and> SubmitOrderRequest.Type req \<noteq> ''MARKET'')
      \<or> SubmitOrderRequest.Quantity req \<le>s 0
      \<or> (SubmitOrderRequest.Type req = ''LIMIT'' \<and> SubmitOrderRequest.Price req \<le>s 0))
   \<and> (validateSubmitOrderRequest req \<noteq> None \<longrightarrow>
        (\<exists>msg. SubmitOrder req orderID now w = Some (SubmitBadRequest msg, w)))
   \<and> (validateSubmitOrderRequest req = None \<longrightarrow>
        SubmitOrder req orderID now w =
          (case MatchOrder (with_order w (submitted_order req orderID now)) (nextAddr w) of
             None \<Rightarrow> None
           | Some (Inl e, w2) \<Rightarrow> Some (SubmitInsufficientLiquidity, w2)
           | Some (Inr result, w2) \<Rightarrow>
               Some (SubmitMatched
                       (if MatchResult.Status result = StatusAccepted then 201
                        else if MatchResult.Status result = StatusPartialFill then 202
                        else 200) orderID result, w2)))"
proof (intro conjI impI)
  show "validateSubmitOrderRequest req \<noteq> None \<longleftrightarrow>
      SubmitOrderRequest.Symbol req = []
      \<or> (SubmitOrderRequest.Side req \<noteq> ''BUY'' \<and> SubmitOrderRequest.Side req \<noteq> ''SELL'')
      \<or> (SubmitOrderRequest.Type req \<noteq> ''LIMIT'' \<and> SubmitOrderRequest.Type req \<noteq> ''MARKET'')
      \<or> SubmitOrderRequest.Quantity req \<le>s 0
      \<or> (SubmitOrderRequest.Type req = ''LIMIT'' \<and> SubmitOrderRequest.Price req \<le>s 0)"
    unfolding validateSubmitOrderRequest_def by (simp only: split: if_split) blast
next
  assume "validateSubmitOrderRequest req \<noteq> None"
  then obtain err where "validateSubmitOrderRequest req = Some err" by blast
  then show "\<exists>msg. SubmitOrder req orderID now w = Some (SubmitBadRequest msg, w)"
    by (simp add: SubmitOrder_def)
next
  assume "validateSubmitOrderRequest req = None"
  then show "SubmitOrder req orderID now w =
          (case MatchOrder (with_order w (submitted_order req orderID now)) (nextAddr w) of
             None \<Rightarrow> None
           | Some (Inl e, w2) \<Rightarrow> Some (SubmitInsufficientLiquidity, w2)
           | Some (Inr result, w2) \<Rightarrow>
               Some (SubmitMatched
                       (if MatchResult.Status result = StatusAccepted then 201
                        else if MatchResult.Status result = StatusPartialFill then 202
                        else 200) orderID result, w2))"
    by (simp add: SubmitOrder_def Let_def with_order_def submitted_order_def)
qed

text \<open>
  The theorem at two requests: a LIMIT request without a symbol is rejected and the state
  is untouched; a MARKET request that carries a price passes validation and reaches
  \<open>MatchOrder\<close>.
\<close>

theorem C9_validation_witness:
  "validateSubmitOrderRequest limit_no_symbol \<noteq> None
   \<and> (\<exists>msg. SubmitOrder limit_no_symbol ''id-1'' 0 empty_world
               = Some (SubmitBadRequest msg, empty_world))
   \<and> validateSubmitOrderRequest market_with_price = None
   \<and> SubmitOrder market_with_price ''id-1'' 0 empty_world =
       (case MatchOrder (with_order empty_world (submitted_order market_with_price ''id-1'' 0))
               (nextAddr empty_world) of
          None \<Rightarrow> None
        | Some (Inl e, w2) \<Rightarrow> Some (SubmitInsufficientLiquidity, w2)
        | Some (Inr result, w2) \<Rightarrow>
            Some (SubmitMatched
                    (if MatchResult.Status result = StatusAccepted then 201
                     else if MatchResult.Status result = StatusPartialFill then 202
                     else 200) ''id-1'' result, w2))"
proof -
  have a: "validateSubmitOrderRequest limit_no_symbol \<noteq> None"
    by (simp add: limit_no_symbol_def validateSubmitOrderRequest_def)
  have b: "validateSubmitOrderRequest market_with_price = None"
    by (simp add: market_with_price_def validateSubmitOrderRequest_def signed_cmp)
  from a b C9_validation [of limit_no_symbol "''id-1''" 0 empty_world]
    C9_validation [of market_with_price "''id-1''" 0 empty_world]
  show ?thesis by blast
qed

text \<open>
  C9 as stated fails: a MARKET request carrying the price 15050 is not rejected. It
  passes validation and \<open>SubmitOrder\<close> does not answer with a validation error.
\<close>

theorem C9_market_price_counterexample:
  "SubmitOrderRequest.Type market_with_price = ''MARKET''
   \<and> SubmitOrderRequest.Price market_with_price \<noteq> 0
   \<and> validateSubmitOrderRequest market_with_price = None
   \<and> (\<nexists>msg. SubmitOrder market_with_price ''id-1'' 0 empty_world
                = Some (SubmitBadRequest msg, empty_world))"
  by (simp add: market_with_price_def validateSubmitOrderRequest_def signed_cmp
      SubmitOrder_def MatchOrder_def GetOrCreateOrderBook_def NewOrder_def empty_world_def
      matchMarketOrder_def totalAvailable_def opposite_def side_tree_def NewOrderBook_def Let_def)

section \<open>The matching walks: invariant and termination\<close>

subsection \<open>Signed arithmetic without overflow\<close>

lemma sint_add_in_range:
  fixes x y z :: int64
  assumes "0 \<le> sint x" and "0 \<le> sint y" and "sint x + sint y \<le> sint z"
  shows "sint (x + y) = sint x + sint y"
proof -
  have "sint z < 2 ^ (LENGTH(64) - 1)" by (rule sint_lt)
  then have "- (2 ^ (LENGTH(64) - 1)) \<le> sint x + sint y" "sint x + sint y < 2 ^ (LENGTH(64) - 1)"
    using assms by simp_all
  then show ?thesis by (simp only: sint_word_add signed_take_bit_int_eq_self)
qed

lemma sint_sub_in_range:
  fixes x y :: int64
  assumes "0 \<le> sint y" and "sint y \<le> sint x"
  shows "sint (x - y) = sint x - sint y"
proof -
  have "sint x < 2 ^ (LENGTH(64) - 1)" by (rule sint_lt)
  then have "- (2 ^ (LENGTH(64) - 1)) \<le> sint x - sint y" "sint x - sint y < 2 ^ (LENGTH(64) - 1)"
    using assms by simp_all
  then show ?thesis by (simp only: sint_word_diff signed_take_bit_int_eq_self)
qed

subsection \<open>Static fields\<close>

lemma same_static_refl: "same_static h h"
  by (simp add: same_static_def)

lemma same_static_Fill:
  "same_static h0 h \<Longrightarrow> same_static h0 (h(x := Fill e (h x)))"
  by (simp add: same_static_def Fill_def Let_def)

lemma same_static_trade:
  "same_static h0 h \<Longrightarrow>
   same_static h0 ((h(a := Fill e (h a)))(r := Fill e ((h(a := Fill e (h a))) r)))"
  by (intro same_static_Fill)

subsection \<open>Queues and trees that only lose orders\<close>

lemma drop_head_eq: "drop_head q = tl q"
  by (cases q) (simp_all add: drop_head_def drop_Suc)

lemma sub_tree_refl: "sub_tree t t"
  by (auto simp: sub_tree_def)

lemma sub_tree_trans: "sub_tree t2 t1 \<Longrightarrow> sub_tree t1 t0 \<Longrightarrow> sub_tree t2 t0"
  unfolding sub_tree_def by (metis subset_trans)

lemma sub_tree_level_assign:
  assumes "\<And>l. bt_Get p t = Some l \<Longrightarrow> set q \<subseteq> set (PriceLevel.Orders l)"
  shows "sub_tree (level_assign p q t) t"
  using assms
proof (induction t)
  case Nil
  show ?case by (simp add: sub_tree_def)
next
  case (Cons x xs)
  show ?case
  proof (cases "PriceLevel.Price x = p")
    case True
    then have "set q \<subseteq> set (PriceLevel.Orders x)" using Cons.prems by simp
    then show ?thesis using True by (auto simp: sub_tree_def)
  next
    case False
    then have "sub_tree (level_assign p q xs) xs" using Cons by simp
    then show ?thesis using False by (auto simp: sub_tree_def)
  qed
qed

lemma sub_tree_bt_Delete: "sub_tree (bt_Delete p t) t"
  using set_bt_Delete [of p t] by (auto simp: sub_tree_def)

lemma level_assign_absent: "bt_Get p t = None \<Longrightarrow> level_assign p q t = t"
  by (induction t) (auto split: if_splits)

subsection \<open>Weights\<close>

lemma tree_weight_level_assign:
  "bt_Get p t = Some l \<Longrightarrow>
   tree_weight h (level_assign p q t) + queue_weight h (PriceLevel.Orders l)
     = tree_weight h t + queue_weight h q"
  by (induction t) (auto simp: tree_weight_def split: if_splits)

lemma tree_weight_bt_Delete: "tree_weight h (bt_Delete p t) \<le> tree_weight h t"
  by (induction t) (auto simp: tree_weight_def)

lemma queue_weight_remove_first_id:
  "queue_weight h (remove_first_id h' oid q) \<le> queue_weight h q"
  by (induction q) (auto simp: queue_weight_def)

lemma queue_weight_tl: "queue_weight h (tl q) \<le> queue_weight h q"
  by (cases q) (simp_all add: queue_weight_def)

lemma order_weight_pos: "0 < order_weight h x"
  by (simp add: order_weight_def)

lemma queue_weight_mono:
  assumes "\<forall>x \<in> set q. order_weight h' x \<le> order_weight h x"
  shows "queue_weight h' q \<le> queue_weight h q"
  unfolding queue_weight_def using assms by (induction q) (auto intro: add_mono)

lemma queue_weight_strict:
  assumes "\<forall>x \<in> set q. order_weight h' x \<le> order_weight h x"
    and "r \<in> set q" and "order_weight h' r < order_weight h r"
  shows "queue_weight h' q < queue_weight h q"
  using assms
proof (induction q)
  case Nil
  then show ?case by simp
next
  case (Cons x xs)
  have le: "queue_weight h' xs \<le> queue_weight h xs"
    using Cons.prems(1) by (intro queue_weight_mono) simp
  show ?case
  proof (cases "x = r")
    case True
    then show ?thesis using le Cons.prems(3) by (simp add: queue_weight_def)
  next
    case False
    then have "r \<in> set xs" using Cons.prems(2) by simp
    then have "queue_weight h' xs < queue_weight h xs"
      using Cons.IH Cons.prems(1,3) by simp
    moreover have "order_weight h' x \<le> order_weight h x" using Cons.prems(1) by simp
    ultimately show ?thesis by (simp add: queue_weight_def)
  qed
qed

lemma tree_weight_mono:
  assumes "\<forall>l \<in> set t. \<forall>x \<in> set (PriceLevel.Orders l). order_weight h' x \<le> order_weight h x"
  shows "tree_weight h' t \<le> tree_weight h t"
  using assms
proof (induction t)
  case Nil
  show ?case by (simp add: tree_weight_def)
next
  case (Cons y ys)
  have "tree_weight h' ys \<le> tree_weight h ys"
    using Cons.prems by (intro Cons.IH) simp
  moreover have "queue_weight h' (PriceLevel.Orders y) \<le> queue_weight h (PriceLevel.Orders y)"
    using Cons.prems by (intro queue_weight_mono) simp
  ultimately show ?case by (simp add: tree_weight_def)
qed

lemma tree_weight_strict:
  assumes "\<forall>l \<in> set t. \<forall>x \<in> set (PriceLevel.Orders l). order_weight h' x \<le> order_weight h x"
    and "l \<in> set t" and "r \<in> set (PriceLevel.Orders l)" and "order_weight h' r < order_weight h r"
  shows "tree_weight h' t < tree_weight h t"
  using assms
proof (induction t)
  case Nil
  then show ?case by simp
next
  case (Cons y ys)
  have le: "tree_weight h' ys \<le> tree_weight h ys"
    using Cons.prems(1) by (intro tree_weight_mono) simp
  have qle: "queue_weight h' (PriceLevel.Orders y) \<le> queue_weight h (PriceLevel.Orders y)"
    using Cons.prems(1) by (intro queue_weight_mono) simp
  show ?case
  proof (cases "y = l")
    case True
    have "queue_weight h' (PriceLevel.Orders y) < queue_weight h (PriceLevel.Orders y)"
      using Cons.prems(1,3,4) True by (intro queue_weight_strict [of _ _ _ r]) simp_all
    then show ?thesis using le by (simp add: tree_weight_def)
  next
    case False
    then have "l \<in> set ys" using Cons.prems(2) by simp
    then have "tree_weight h' ys < tree_weight h ys"
      using Cons.IH Cons.prems(1,3,4) by simp
    then show ?thesis using qle by (simp add: tree_weight_def)
  qed
qed

subsection \<open>The book operations of the loops\<close>

lemma side_tree_set_side_tree_any:
  "side_tree side' (set_side_tree side t ob) = (if side' = side then t else side_tree side' ob)"
  by (cases side; cases side') (simp_all add: side_tree_def set_side_tree_def)

lemma level_Orders_head:
  assumes "level_Orders side p ob = r # rest"
  shows "\<exists>l \<in> set (side_tree side ob). PriceLevel.Price l = p \<and> PriceLevel.Orders l = r # rest
           \<and> bt_Get p (side_tree side ob) = Some l"
  using assms bt_Get_Some_mem bt_Get_Some_Price
  by (fastforce simp: level_Orders_def split: option.splits)

lemma RemoveOrder_tree:
  "side_tree side (snd (RemoveOrder h oid ob)) = side_tree side ob
   \<or> (\<exists>p l. bt_Get p (side_tree side ob) = Some l
        \<and> (side_tree side (snd (RemoveOrder h oid ob))
              = level_assign p (remove_first_id h oid (PriceLevel.Orders l)) (side_tree side ob)
            \<or> side_tree side (snd (RemoveOrder h oid ob))
              = bt_Delete p (level_assign p (remove_first_id h oid (PriceLevel.Orders l))
                              (side_tree side ob))))"
proof (cases "OrderBook.Orders ob oid")
  case None
  then show ?thesis by (simp add: RemoveOrder_def)
next
  case (Some x)
  show ?thesis
  proof (cases "bt_Get (Order.Price (h x)) (side_tree (Order.Side (h x)) ob)")
    case None
    then show ?thesis using Some by (simp add: RemoveOrder_def Let_def)
  next
    case l: (Some l)
    show ?thesis
    proof (cases "side = Order.Side (h x)")
      case False
      then show ?thesis using Some l
        by (simp add: RemoveOrder_def Let_def side_tree_set_side_tree_any)
    next
      case True
      have "bt_Get (Order.Price (h x)) (side_tree side ob) = Some l" using l True by simp
      moreover have "side_tree side (snd (RemoveOrder h oid ob))
              = level_assign (Order.Price (h x)) (remove_first_id h oid (PriceLevel.Orders l))
                  (side_tree side ob)
            \<or> side_tree side (snd (RemoveOrder h oid ob))
              = bt_Delete (Order.Price (h x))
                  (level_assign (Order.Price (h x)) (remove_first_id h oid (PriceLevel.Orders l))
                     (side_tree side ob))"
        using Some l True by (simp add: RemoveOrder_def Let_def side_tree_set_side_tree_any)
      ultimately show ?thesis by blast
    qed
  qed
qed

lemma sub_tree_RemoveOrder:
  "sub_tree (side_tree side (snd (RemoveOrder h oid ob))) (side_tree side ob)"
proof -
  have a: "sub_tree (level_assign p (remove_first_id h oid (PriceLevel.Orders l)) t) t"
    if "bt_Get p t = Some l" for p l t
    using that set_remove_first_id [of h oid "PriceLevel.Orders l"]
    by (intro sub_tree_level_assign) simp
  have b: "sub_tree (bt_Delete p (level_assign p (remove_first_id h oid (PriceLevel.Orders l)) t)) t"
    if "bt_Get p t = Some l" for p l t
    using a [OF that] sub_tree_bt_Delete sub_tree_trans by blast
  show ?thesis
    using RemoveOrder_tree [of side h oid ob] a b sub_tree_refl by metis
qed

lemma tree_weight_RemoveOrder:
  "tree_weight w (side_tree side (snd (RemoveOrder h oid ob))) \<le> tree_weight w (side_tree side ob)"
proof -
  have a: "tree_weight w (level_assign p (remove_first_id h oid (PriceLevel.Orders l)) t)
             \<le> tree_weight w t"
    if "bt_Get p t = Some l" for p l t
    using tree_weight_level_assign [OF that, of w "remove_first_id h oid (PriceLevel.Orders l)"]
      queue_weight_remove_first_id [of w h oid "PriceLevel.Orders l"]
    by linarith
  have b: "tree_weight w (bt_Delete p (level_assign p (remove_first_id h oid (PriceLevel.Orders l)) t))
             \<le> tree_weight w t"
    if "bt_Get p t = Some l" for p l t
    using a [OF that] tree_weight_bt_Delete le_trans by blast
  show ?thesis
    using RemoveOrder_tree [of side h oid ob] a b by (metis order_refl)
qed

lemma sub_tree_set_level_Orders_tl:
  "sub_tree (side_tree side (set_level_Orders side p (tl (level_Orders side p ob)) ob))
     (side_tree side ob)"
  unfolding set_level_Orders_def side_tree_set_side_tree_any
  by (auto intro!: sub_tree_level_assign simp: level_Orders_def dest: list.set_sel(2) split: option.splits)
     (metis list.sel(2) list.set_sel(2))

lemma tree_weight_set_level_Orders_tl:
  "tree_weight w (side_tree side (set_level_Orders side p (tl (level_Orders side p ob)) ob))
     \<le> tree_weight w (side_tree side ob)"
proof (cases "bt_Get p (side_tree side ob)")
  case None
  then show ?thesis
    by (simp add: set_level_Orders_def side_tree_set_side_tree_any level_assign_absent)
next
  case (Some l)
  then show ?thesis
    using tree_weight_level_assign [OF Some, of w "tl (PriceLevel.Orders l)"]
      queue_weight_tl [of w "PriceLevel.Orders l"]
    by (simp add: set_level_Orders_def side_tree_set_side_tree_any level_Orders_def)
qed

lemma tree_weight_drop_stale:
  assumes "level_Orders side p ob = r # rest"
  shows "tree_weight w (side_tree side (set_level_Orders side p (tl (r # rest)) ob))
           < tree_weight w (side_tree side ob)"
proof -
  obtain l where l: "bt_Get p (side_tree side ob) = Some l" "PriceLevel.Orders l = r # rest"
    using level_Orders_head [OF assms] by blast
  show ?thesis
    using tree_weight_level_assign [OF l(1), of w rest] l(2) order_weight_pos [of w r]
    by (simp add: set_level_Orders_def side_tree_set_side_tree_any queue_weight_def)
qed

lemma sub_tree_delete_level:
  "sub_tree (side_tree side (delete_level side p ob)) (side_tree side ob)"
  by (simp add: delete_level_def side_tree_set_side_tree_any sub_tree_bt_Delete)

lemma tree_weight_delete_level:
  "tree_weight w (side_tree side (delete_level side p ob)) \<le> tree_weight w (side_tree side ob)"
  by (simp add: delete_level_def side_tree_set_side_tree_any tree_weight_bt_Delete)

lemma sub_book_refl: "sub_book ob ob"
  by (simp add: sub_book_def sub_tree_refl)

lemma sub_book_trans: "sub_book ob2 ob1 \<Longrightarrow> sub_book ob1 ob0 \<Longrightarrow> sub_book ob2 ob0"
  unfolding sub_book_def using sub_tree_trans map_le_trans by blast

lemma sub_book_side: "sub_book ob' ob \<Longrightarrow> sub_tree (side_tree side ob') (side_tree side ob)"
  by (cases side) (simp_all add: sub_book_def side_tree_def)

lemma sub_bookI:
  assumes "\<And>side. sub_tree (side_tree side ob') (side_tree side ob)"
    and "OrderBook.Orders ob' \<subseteq>\<^sub>m OrderBook.Orders ob"
  shows "sub_book ob' ob"
  using assms(1) [of SideBuy] assms(1) [of SideSell] assms(2)
  by (simp add: sub_book_def side_tree_def)

lemma sub_book_RemoveOrder: "sub_book (snd (RemoveOrder h oid ob)) ob"
  by (intro sub_bookI sub_tree_RemoveOrder) (simp add: Orders_RemoveOrder map_le_def)

lemma Orders_set_side_tree [simp]:
  "OrderBook.Orders (set_side_tree side t ob) = OrderBook.Orders ob"
  by (simp add: set_side_tree_def)

lemma sub_book_set_level_Orders_tl:
  "sub_book (set_level_Orders side p (tl (level_Orders side p ob)) ob) ob"
proof (intro sub_bookI)
  fix side'
  show "sub_tree (side_tree side' (set_level_Orders side p (tl (level_Orders side p ob)) ob))
          (side_tree side' ob)"
    using sub_tree_set_level_Orders_tl [of side p ob]
    by (cases "side' = side")
       (simp_all add: set_level_Orders_def side_tree_set_side_tree_any sub_tree_refl)
qed (simp add: set_level_Orders_def)

lemma sub_book_delete_level: "sub_book (delete_level side p ob) ob"
proof (intro sub_bookI)
  fix side'
  show "sub_tree (side_tree side' (delete_level side p ob)) (side_tree side' ob)"
    using sub_tree_delete_level [of side p ob]
    by (cases "side' = side")
       (simp_all add: delete_level_def side_tree_set_side_tree_any sub_tree_refl)
qed (simp add: delete_level_def)

lemma sub_tree_queued:
  "sub_tree (side_tree side ob') (side_tree side ob) \<Longrightarrow> queued side ob' \<subseteq> queued side ob"
  by (fastforce simp: sub_tree_def queued_def)

lemma sub_tree_level:
  assumes "sub_tree t' t" and "l' \<in> set t'" and "r \<in> set (PriceLevel.Orders l')"
  shows "\<exists>l \<in> set t. PriceLevel.Price l = PriceLevel.Price l' \<and> r \<in> set (PriceLevel.Orders l)"
  using assms by (fastforce simp: sub_tree_def)

subsection \<open>The execution quantity\<close>

lemma executionQty_facts:
  fixes rr rq :: int64
  assumes "\<not> rr \<le>s 0" and "0 <s rq"
  defines "e \<equiv> (if rr <s rq then rr else rq)"
  shows "0 < sint e" and "sint e \<le> sint rq" and "sint e \<le> sint rr" and "\<not> e \<le>s 0"
    and "e \<noteq> rq \<Longrightarrow> e = rr"
  using assms by (auto simp: word_sless_alt word_sle_eq)

subsection \<open>The store after a trade\<close>

lemma trade_store:
  fixes h :: heap and e :: int64
  assumes "a \<noteq> r"
  defines "h2 \<equiv> (h(a := Fill e (h a)))(r := Fill e ((h(a := Fill e (h a))) r))"
  shows "h2 a = Fill e (h a)" and "h2 r = Fill e (h r)"
    and "\<And>x. x \<noteq> a \<Longrightarrow> x \<noteq> r \<Longrightarrow> h2 x = h x"
  using assms by simp_all

lemma order_weight_le2: "order_weight h x \<le> 2"
  by (simp add: order_weight_def)

lemma order_weight_Fill_all:
  "Order_RemainingQuantity (Fill (Order_RemainingQuantity od) od) = 0"
  by (simp add: Order_RemainingQuantity_def Fill_def Let_def)

lemma trade_weights:
  fixes h :: heap and e :: int64
  assumes ar: "a \<noteq> r" and ns: "\<not> Order_RemainingQuantity (h r) \<le>s 0"
  defines "h2 \<equiv> (h(a := Fill e (h a)))(r := Fill e ((h(a := Fill e (h a))) r))"
  shows "\<And>x. x \<noteq> a \<Longrightarrow> order_weight h2 x \<le> order_weight h x"
    and "e = Order_RemainingQuantity (h r) \<Longrightarrow> order_weight h2 r < order_weight h r"
proof -
  have r2: "order_weight h r = 2" using ns by (simp add: order_weight_def)
  show "order_weight h2 x \<le> order_weight h x" if "x \<noteq> a" for x
  proof (cases "x = r")
    case True
    then show ?thesis using r2 order_weight_le2 [of h2 r] by simp
  next
    case False
    then show ?thesis using that by (simp add: h2_def order_weight_def)
  qed
  show "order_weight h2 r < order_weight h r" if "e = Order_RemainingQuantity (h r)"
    using that ar r2 order_weight_Fill_all [of "h r"]
    by (simp add: h2_def order_weight_def)
qed

lemma make_trade_static:
  "same_static h0 h \<Longrightarrow> make_trade (h a) (h r) p e = make_trade (h0 a) (h0 r) p e"
  by (simp add: make_trade_def same_static_def)

lemma Trade_Quantity_make_trade: "Trade.Quantity (make_trade od rs p e) = e"
  by (simp add: make_trade_def)

lemma Trade_Price_make_trade: "Trade.Price (make_trade od rs p e) = p"
  by (simp add: make_trade_def)

subsection \<open>The invariant of a walk, step by step\<close>

lemma walk_inv_static_side:
  "walk_inv ok h0 ob0 a s \<Longrightarrow> Order.Side (hp s a) = Order.Side (h0 a)"
  by (simp add: walk_inv_def same_static_def)

lemma walk_inv_not_queued:
  assumes "walk_inv ok h0 ob0 a s"
  shows "a \<notin> queued (opposite (Order.Side (h0 a))) (bk s)"
  using assms sub_tree_queued [of "opposite (Order.Side (h0 a))" "bk s" ob0] sub_book_side
  by (auto simp: walk_inv_def)

lemma walk_inv_shrink:
  assumes "walk_inv ok h0 ob0 a s" and "sub_book ob' (bk s)"
  shows "walk_inv ok h0 ob0 a (s\<lparr>bk := ob'\<rparr>)"
  using assms sub_book_trans by (auto simp: walk_inv_def)

lemma walk_inv_head:
  assumes inv: "walk_inv ok h0 ob0 a s"
    and hd: "level_Orders (opposite (Order.Side (h0 a))) p (bk s) = r # rest"
  shows "a \<noteq> r"
    and "\<exists>l \<in> set (side_tree (opposite (Order.Side (h0 a))) (bk s)).
           PriceLevel.Price l = p \<and> r \<in> set (PriceLevel.Orders l)"
    and "\<exists>l \<in> set (side_tree (opposite (Order.Side (h0 a))) ob0).
           PriceLevel.Price l = p \<and> r \<in> set (PriceLevel.Orders l)"
proof -
  obtain l where l: "l \<in> set (side_tree (opposite (Order.Side (h0 a))) (bk s))"
    "PriceLevel.Price l = p" "PriceLevel.Orders l = r # rest"
    using level_Orders_head [OF hd] by blast
  then have rq: "r \<in> queued (opposite (Order.Side (h0 a))) (bk s)"
    by (force simp: queued_def)
  then show "a \<noteq> r" using walk_inv_not_queued [OF inv] by blast
  show "\<exists>l \<in> set (side_tree (opposite (Order.Side (h0 a))) (bk s)).
           PriceLevel.Price l = p \<and> r \<in> set (PriceLevel.Orders l)"
    using l by force
  have "sub_tree (side_tree (opposite (Order.Side (h0 a))) (bk s))
                 (side_tree (opposite (Order.Side (h0 a))) ob0)"
    using inv by (simp add: walk_inv_def sub_book_side)
  from sub_tree_level [OF this l(1), of r] l(2,3)
  show "\<exists>l \<in> set (side_tree (opposite (Order.Side (h0 a))) ob0).
           PriceLevel.Price l = p \<and> r \<in> set (PriceLevel.Orders l)"
    by auto
qed

text \<open>The stale head is dropped.\<close>

lemma walk_stale:
  assumes inv: "walk_inv ok h0 ob0 a s"
    and hd: "level_Orders (opposite (Order.Side (h0 a))) p (bk s) = r # rest"
  defines "s1 \<equiv> s\<lparr>bk := set_level_Orders (opposite (Order.Side (h0 a))) p (drop_head (r # rest)) (bk s)\<rparr>"
  shows "walk_inv ok h0 ob0 a s1" and "walk_weight a s1 < walk_weight a s"
proof -
  let ?opp = "opposite (Order.Side (h0 a))"
  have side: "Order.Side (hp s a) = Order.Side (h0 a)" using inv by (rule walk_inv_static_side)
  have "sub_book (set_level_Orders ?opp p (tl (level_Orders ?opp p (bk s))) (bk s)) (bk s)"
    by (rule sub_book_set_level_Orders_tl)
  then show "walk_inv ok h0 ob0 a s1"
    unfolding s1_def using inv hd by (intro walk_inv_shrink) (simp_all add: drop_head_eq)
  show "walk_weight a s1 < walk_weight a s"
    using tree_weight_drop_stale [OF hd, of "hp s"] side
    by (simp add: s1_def walk_weight_def drop_head_eq)
qed

text \<open>A trade: the two fills, the trade record, the new remaining quantity.\<close>

lemma walk_trade:
  fixes e rq :: int64
  assumes inv: "walk_inv ok h0 ob0 a s" and okp: "ok p"
    and hd: "level_Orders (opposite (Order.Side (h0 a))) p (bk s) = r # rest"
    and ns: "\<not> Order_RemainingQuantity (hp s r) \<le>s 0"
  defines "h2 \<equiv> ((hp s)(a := Fill e (hp s a)))(r := Fill e (((hp s)(a := Fill e (hp s a))) r))"
  defines "s1 \<equiv> s\<lparr>hp := h2,
                   res := (res s)\<lparr>Trades := Trades (res s) @ [make_trade (hp s a) (hp s r) p e],
                              MatchResult.FilledQuantity := MatchResult.FilledQuantity (res s) + e\<rparr>,
                   remainingQty := rq\<rparr>"
  shows "walk_inv ok h0 ob0 a s1"
    and "walk_weight a s1 \<le> walk_weight a s"
    and "e = Order_RemainingQuantity (hp s r) \<Longrightarrow> walk_weight a s1 < walk_weight a s"
proof -
  let ?opp = "opposite (Order.Side (h0 a))"
  let ?t = "side_tree ?opp (bk s)"
  have st: "same_static h0 (hp s)" using inv by (simp add: walk_inv_def)
  have st2: "same_static h0 h2" unfolding h2_def using st by (rule same_static_trade)
  have ar: "a \<noteq> r" using walk_inv_head(1) [OF inv hd] .
  obtain l0 where l0: "l0 \<in> set (side_tree ?opp ob0)" "PriceLevel.Price l0 = p"
    "r \<in> set (PriceLevel.Orders l0)"
    using walk_inv_head(3) [OF inv hd] by blast
  have tr: "trade_at h0 ob0 a (make_trade (hp s a) (hp s r) p e)"
    unfolding trade_at_def make_trade_static [OF st] Trade_Quantity_make_trade
    using l0 by blast
  show "walk_inv ok h0 ob0 a s1"
    using inv st2 tr okp by (auto simp: walk_inv_def s1_def Trade_Price_make_trade)
  have side: "Order.Side (h2 a) = Order.Side (h0 a)" "Order.Side (hp s a) = Order.Side (h0 a)"
    using st st2 by (simp_all add: same_static_def)
  have nq: "a \<notin> queued ?opp (bk s)" using inv by (rule walk_inv_not_queued)
  have le: "\<forall>l \<in> set ?t. \<forall>x \<in> set (PriceLevel.Orders l). order_weight h2 x \<le> order_weight (hp s) x"
  proof (intro ballI)
    fix l x assume "l \<in> set ?t" "x \<in> set (PriceLevel.Orders l)"
    then have "x \<noteq> a" using nq by (auto simp: queued_def)
    then show "order_weight h2 x \<le> order_weight (hp s) x"
      unfolding h2_def using trade_weights(1) [of a r "hp s" x e] ar ns by blast
  qed
  show "walk_weight a s1 \<le> walk_weight a s"
    using tree_weight_mono [OF le] side by (simp add: walk_weight_def s1_def)
  show "walk_weight a s1 < walk_weight a s" if "e = Order_RemainingQuantity (hp s r)"
  proof -
    obtain l where l: "l \<in> set ?t" "r \<in> set (PriceLevel.Orders l)"
      using walk_inv_head(2) [OF inv hd] by blast
    have "order_weight h2 r < order_weight (hp s) r"
      unfolding h2_def using trade_weights(2) [of a r "hp s" e] ar ns that by blast
    from tree_weight_strict [OF le l this] side show ?thesis
      by (simp add: walk_weight_def s1_def)
  qed
qed

text \<open>After the trade the book only loses orders.\<close>

lemma walk_book_shrink:
  assumes "walk_inv ok h0 ob0 a s1"
    and "sub_book ob' (bk s1)"
    and "tree_weight (hp s1) (side_tree (opposite (Order.Side (h0 a))) ob')
           \<le> tree_weight (hp s1) (side_tree (opposite (Order.Side (h0 a))) (bk s1))"
  shows "walk_inv ok h0 ob0 a (s1\<lparr>bk := ob'\<rparr>)"
    and "walk_weight a (s1\<lparr>bk := ob'\<rparr>) \<le> walk_weight a s1"
  using assms walk_inv_shrink [OF assms(1,2)] walk_inv_static_side [OF assms(1)]
  by (simp_all add: walk_weight_def)

subsection \<open>The fill counter of the incoming limit order\<close>

lemma limit_inv_bk [simp]: "limit_inv a (s\<lparr>bk := ob\<rparr>) = limit_inv a s"
  by (simp add: limit_inv_def)

lemma limit_inv_sint:
  assumes "limit_inv a s"
  shows "sint (remainingQty s)
           = sint (Order.Quantity (hp s a)) - sint (Order.FilledQuantity (hp s a))"
  using assms sint_sub_in_range [of "Order.FilledQuantity (hp s a)" "Order.Quantity (hp s a)"]
  by (simp add: limit_inv_def)

lemma limit_inv_not_filled:
  assumes "limit_inv a s" and "0 <s remainingQty s"
  shows "\<not> IsFilled (hp s a)"
  using assms limit_inv_sint [OF assms(1)] by (simp add: IsFilled_def word_sless_alt word_sle_eq)

lemma limit_trade:
  fixes e :: int64 and tr :: Trade
  assumes li: "limit_inv a s" and ar: "a \<noteq> r"
    and e: "0 < sint e" "sint e \<le> sint (remainingQty s)"
  defines "h2 \<equiv> ((hp s)(a := Fill e (hp s a)))(r := Fill e (((hp s)(a := Fill e (hp s a))) r))"
  defines "s1 \<equiv> s\<lparr>hp := h2,
                   res := (res s)\<lparr>Trades := Trades (res s) @ [tr],
                              MatchResult.FilledQuantity := MatchResult.FilledQuantity (res s) + e\<rparr>,
                   remainingQty := Order.Quantity (h2 a) - Order.FilledQuantity (h2 a)\<rparr>"
  shows "limit_inv a s1"
    and "remainingQty s1 = remainingQty s - e"
    and "IsFilled (h2 a) \<Longrightarrow> remainingQty s1 = 0"
proof -
  let ?F = "Order.FilledQuantity (hp s a)" and ?Q = "Order.Quantity (hp s a)"
  have a2: "h2 a = Fill e (hp s a)" using ar by (simp add: h2_def)
  have F2: "Order.FilledQuantity (h2 a) = ?F + e" and Q2: "Order.Quantity (h2 a) = ?Q"
    by (simp_all add: a2 Fill_def Let_def)
  have r: "sint (remainingQty s) = sint ?Q - sint ?F" using li by (rule limit_inv_sint)
  have b: "0 \<le> sint ?F" "sint ?F \<le> sint ?Q" using li by (simp_all add: limit_inv_def)
  have s: "sint (?F + e) = sint ?F + sint e"
    using b e r by (intro sint_add_in_range [of ?F e ?Q]) simp_all
  show li1: "limit_inv a s1"
    using li b e r s by (simp add: limit_inv_def s1_def F2 Q2)
  show "remainingQty s1 = remainingQty s - e"
    using li by (simp add: limit_inv_def s1_def F2 Q2)
  show "remainingQty s1 = 0" if "IsFilled (h2 a)"
  proof -
    have "sint ?Q \<le> sint (?F + e)" using that by (simp add: IsFilled_def F2 Q2 word_sle_eq)
    moreover have "sint (?F + e) \<le> sint ?Q" using s e r by simp
    ultimately have "sint (?F + e) = sint ?Q" by simp
    then have "?F + e = ?Q" using signed_word_eqI by blast
    then show ?thesis by (simp add: s1_def F2 Q2)
  qed
qed

subsection \<open>One pass through the inner loop of a limit walk\<close>

lemma limitLevelStep_inv:
  assumes inv: "walk_inv ok h0 ob0 a s" and li: "limit_inv a s" and okp: "ok p"
    and g: "0 <s remainingQty s"
  shows "case limitLevelStep a p s of
           Break s1 \<Rightarrow>
             walk_inv ok h0 ob0 a s1 \<and> limit_inv a s1 \<and> walk_weight a s1 \<le> walk_weight a s
             \<and> (level_Orders (opposite (Order.Side (h0 a))) p (bk s) \<noteq> []
                  \<longrightarrow> remainingQty s1 \<le>s 0 \<or> walk_weight a s1 < walk_weight a s)
         | Continue s1 \<Rightarrow>
             walk_inv ok h0 ob0 a s1 \<and> limit_inv a s1 \<and> walk_weight a s1 < walk_weight a s"
proof -
  let ?opp = "opposite (Order.Side (h0 a))"
  have side: "Order.Side (hp s a) = Order.Side (h0 a)" using inv by (rule walk_inv_static_side)
  show ?thesis
  proof (cases "level_Orders ?opp p (bk s)")
    case Nil
    then show ?thesis using inv li by (simp add: limitLevelStep_def side)
  next
    case (Cons r rest)
    show ?thesis
    proof (cases "Order_RemainingQuantity (hp s r) \<le>s 0")
      case True
      have "limitLevelStep a p s
              = Continue (s\<lparr>bk := set_level_Orders ?opp p (drop_head (r # rest)) (bk s)\<rparr>)"
        using Cons True by (simp add: limitLevelStep_def side)
      then show ?thesis using walk_stale [OF inv Cons] li by simp
    next
      case ns: False
      define e where "e = (if Order_RemainingQuantity (hp s r) <s remainingQty s
                           then Order_RemainingQuantity (hp s r) else remainingQty s)"
      define h2 where
        "h2 = ((hp s)(a := Fill e (hp s a)))(r := Fill e (((hp s)(a := Fill e (hp s a))) r))"
      define s1 where
        "s1 = s\<lparr>hp := h2,
                res := (res s)\<lparr>Trades := Trades (res s) @ [make_trade (hp s a) (hp s r) p e],
                          MatchResult.FilledQuantity := MatchResult.FilledQuantity (res s) + e\<rparr>,
                remainingQty := Order.Quantity (h2 a) - Order.FilledQuantity (h2 a)\<rparr>"
      define ob1 where
        "ob1 = (if IsFilled (h2 r) then snd (RemoveOrder h2 (Order.ID (h2 r)) (bk s)) else bk s)"
      have ef: "0 < sint e" "sint e \<le> sint (remainingQty s)" "\<not> e \<le>s 0"
        "e \<noteq> remainingQty s \<Longrightarrow> e = Order_RemainingQuantity (hp s r)"
        unfolding e_def using executionQty_facts [OF ns g] by simp_all
      have ar: "a \<noteq> r" using walk_inv_head(1) [OF inv Cons] .
      have step: "limitLevelStep a p s =
          (if remainingQty s1 \<le>s 0 \<or> IsFilled (h2 a) then Break s1
           else if level_Orders ?opp p ob1 = [] then Break (s1\<lparr>bk := delete_level ?opp p ob1\<rparr>)
           else Continue (s1\<lparr>bk := ob1\<rparr>))"
        using Cons ns ef(3) ar
        by (simp add: limitLevelStep_def side Let_def e_def h2_def s1_def ob1_def)
      have w1: "walk_inv ok h0 ob0 a s1" "walk_weight a s1 \<le> walk_weight a s"
        and w1s: "e = Order_RemainingQuantity (hp s r) \<Longrightarrow> walk_weight a s1 < walk_weight a s"
        unfolding s1_def h2_def
        using walk_trade [OF inv okp Cons ns,
            where e = e and rq = "Order.Quantity (h2 a) - Order.FilledQuantity (h2 a)"]
        by (simp_all add: h2_def)
      have l1: "limit_inv a s1" "remainingQty s1 = remainingQty s - e"
        and l1f: "IsFilled (h2 a) \<Longrightarrow> remainingQty s1 = 0"
        unfolding s1_def h2_def
        using limit_trade [OF li ar ef(1,2), where tr = "make_trade (hp s a) (hp s r) p e"]
        by (simp_all add: h2_def)
      show ?thesis
      proof (cases "remainingQty s1 \<le>s 0 \<or> IsFilled (h2 a)")
        case True
        then have "remainingQty s1 \<le>s 0" using l1f by auto
        then show ?thesis using step True w1 l1(1) by simp
      next
        case False
        then have "e \<noteq> remainingQty s" using l1(2) by auto
        then have lt: "walk_weight a s1 < walk_weight a s" using ef(4) w1s by blast
        have hb: "hp s1 = h2" "bk s1 = bk s" by (simp_all add: s1_def)
        have sub: "sub_book ob1 (bk s1)"
          unfolding ob1_def hb using sub_book_RemoveOrder sub_book_refl by simp
        have wle: "tree_weight (hp s1) (side_tree ?opp ob1)
                     \<le> tree_weight (hp s1) (side_tree ?opp (bk s1))"
          unfolding ob1_def hb using tree_weight_RemoveOrder by simp
        have c: "walk_inv ok h0 ob0 a (s1\<lparr>bk := ob1\<rparr>)"
          "walk_weight a (s1\<lparr>bk := ob1\<rparr>) \<le> walk_weight a s1"
          using walk_book_shrink [OF w1(1) sub wle] by simp_all
        have sub2: "sub_book (delete_level ?opp p ob1) (bk s1)"
          using sub_book_delete_level sub sub_book_trans by blast
        have wle2: "tree_weight (hp s1) (side_tree ?opp (delete_level ?opp p ob1))
                     \<le> tree_weight (hp s1) (side_tree ?opp (bk s1))"
          using tree_weight_delete_level [of "hp s1" ?opp p ob1] wle by linarith
        have d: "walk_inv ok h0 ob0 a (s1\<lparr>bk := delete_level ?opp p ob1\<rparr>)"
          "walk_weight a (s1\<lparr>bk := delete_level ?opp p ob1\<rparr>) \<le> walk_weight a s1"
          using walk_book_shrink [OF w1(1) sub2 wle2] by simp_all
        show ?thesis
        proof (cases "level_Orders ?opp p ob1 = []")
          case True
          then show ?thesis using step False d l1(1) lt by simp
        next
          case ne: False
          then show ?thesis using step False c l1(1) lt by simp
        qed
      qed
    qed
  qed
qed

subsection \<open>The loops of a limit walk return\<close>

lemma limitLevelLoop_total:
  assumes "walk_inv ok h0 ob0 a s" and "limit_inv a s" and "ok p"
  shows "\<exists>s'. limitLevelLoop a p s = Some s'
           \<and> walk_inv ok h0 ob0 a s' \<and> limit_inv a s' \<and> walk_weight a s' \<le> walk_weight a s
           \<and> (0 <s remainingQty s \<and> level_Orders (opposite (Order.Side (h0 a))) p (bk s) \<noteq> []
                \<longrightarrow> remainingQty s' \<le>s 0 \<or> walk_weight a s' < walk_weight a s)"
  using assms
proof (induction "walk_weight a s" arbitrary: s rule: less_induct)
  case less
  note inv = less.prems(1) and li = less.prems(2) and okp = less.prems(3)
  show ?case
  proof (cases "0 <s remainingQty s")
    case False
    then have "limitLevelLoop a p s = Some s" by (subst limitLevelLoop.simps) simp
    then show ?thesis using inv li False by simp
  next
    case g: True
    then have nf: "\<not> IsFilled (hp s a)" using li limit_inv_not_filled by blast
    have unf: "limitLevelLoop a p s =
                 (case limitLevelStep a p s of
                    Break s' \<Rightarrow> Some s'
                  | Continue s' \<Rightarrow> limitLevelLoop a p s')"
      using g nf by (subst limitLevelLoop.simps) simp
    note st = limitLevelStep_inv [OF inv li okp g]
    show ?thesis
    proof (cases "limitLevelStep a p s")
      case (Break s1)
      then show ?thesis using st unf by simp
    next
      case (Continue s1)
      then have s1: "walk_inv ok h0 ob0 a s1" "limit_inv a s1" "walk_weight a s1 < walk_weight a s"
        using st by simp_all
      from less.hyps [OF s1(3) s1(1,2) okp]
      obtain s' where "limitLevelLoop a p s1 = Some s'" "walk_inv ok h0 ob0 a s'"
        "limit_inv a s'" "walk_weight a s' \<le> walk_weight a s1"
        by blast
      then show ?thesis using unf Continue s1(3) by simp
    qed
  qed
qed

lemma best_of_Some:
  assumes "best_of h t = Some (p, q)"
  shows "\<exists>l. bt_Get p t = Some l \<and> PriceLevel.Orders l \<noteq> []"
  using assms by (cases t) (auto simp: best_of_def split: if_splits)

lemma limitBestPrice_Some:
  assumes "limitBestPrice a s = Some p"
  shows "crosses (hp s a) p"
    and "level_Orders (opposite (Order.Side (hp s a))) p (bk s) \<noteq> []"
proof -
  show "crosses (hp s a) p"
    using assms
    by (auto simp: limitBestPrice_def crosses_def Let_def split: if_splits option.splits)
  show "level_Orders (opposite (Order.Side (hp s a))) p (bk s) \<noteq> []"
  proof (cases "Order.Side (hp s a) = SideBuy")
    case True
    then obtain q where "best_of (hp s) (Asks (bk s)) = Some (p, q)"
      using assms
      by (auto simp: limitBestPrice_def GetBestAsk_def Let_def split: if_splits option.splits)
    from best_of_Some [OF this] show ?thesis
      using True by (auto simp: level_Orders_def opposite_def side_tree_def)
  next
    case False
    then obtain q where "best_of (hp s) (Bids (bk s)) = Some (p, q)"
      using assms
      by (auto simp: limitBestPrice_def GetBestBid_def Let_def split: if_splits option.splits)
    from best_of_Some [OF this] show ?thesis
      using False by (auto simp: level_Orders_def opposite_def side_tree_def)
  qed
qed

lemma crosses_static:
  "same_static h0 h \<Longrightarrow> crosses (h a) p = crosses (h0 a) p"
  by (simp add: crosses_def same_static_def)

lemma limitWalk_total:
  assumes "walk_inv (crosses (h0 a)) h0 ob0 a s" and "limit_inv a s"
  shows "\<exists>s'. limitWalk a s = Some s' \<and> walk_inv (crosses (h0 a)) h0 ob0 a s' \<and> limit_inv a s'"
  using assms
proof (induction "walk_weight a s" arbitrary: s rule: less_induct)
  case less
  note inv = less.prems(1) and li = less.prems(2)
  have st: "same_static h0 (hp s)" using inv by (simp add: walk_inv_def)
  have side: "Order.Side (hp s a) = Order.Side (h0 a)" using inv by (rule walk_inv_static_side)
  show ?case
  proof (cases "0 <s remainingQty s")
    case False
    then have "limitWalk a s = Some s" by (subst limitWalk.simps) simp
    then show ?thesis using inv li by simp
  next
    case g: True
    show ?thesis
    proof (cases "limitBestPrice a s")
      case None
      then have "limitWalk a s = Some s" using g by (subst limitWalk.simps) simp
      then show ?thesis using inv li by simp
    next
      case (Some p)
      have okp: "crosses (h0 a) p" using limitBestPrice_Some(1) [OF Some] crosses_static [OF st] by simp
      have ne: "level_Orders (opposite (Order.Side (h0 a))) p (bk s) \<noteq> []"
        using limitBestPrice_Some(2) [OF Some] side by simp
      from limitLevelLoop_total [OF inv li, of p] okp g ne
      obtain s1 where s1: "limitLevelLoop a p s = Some s1" "walk_inv (crosses (h0 a)) h0 ob0 a s1"
        "limit_inv a s1" "remainingQty s1 \<le>s 0 \<or> walk_weight a s1 < walk_weight a s"
        by blast
      have unf: "limitWalk a s = (if remainingQty s1 \<le>s 0 then Some s1 else limitWalk a s1)"
        using g Some s1(1) by (subst limitWalk.simps) simp
      show ?thesis
      proof (cases "remainingQty s1 \<le>s 0")
        case True
        then show ?thesis using unf s1 by simp
      next
        case False
        then have "walk_weight a s1 < walk_weight a s" using s1(4) by simp
        from less.hyps [OF this s1(2,3)] show ?thesis using unf False by simp
      qed
    qed
  qed
qed

subsection \<open>One pass through the inner loop of a market walk\<close>

lemma marketLevelStep_inv:
  assumes inv: "walk_inv ok h0 ob0 a s" and okp: "ok p" and g: "0 <s remainingQty s"
  shows "case marketLevelStep a p s of
           Break s1 \<Rightarrow>
             walk_inv ok h0 ob0 a s1 \<and> walk_weight a s1 \<le> walk_weight a s
             \<and> (level_Orders (opposite (Order.Side (h0 a))) p (bk s) \<noteq> []
                  \<longrightarrow> remainingQty s1 \<le>s 0 \<or> walk_weight a s1 < walk_weight a s)
         | Continue s1 \<Rightarrow> walk_inv ok h0 ob0 a s1 \<and> walk_weight a s1 < walk_weight a s"
proof -
  let ?opp = "opposite (Order.Side (h0 a))"
  have side: "Order.Side (hp s a) = Order.Side (h0 a)" using inv by (rule walk_inv_static_side)
  show ?thesis
  proof (cases "level_Orders ?opp p (bk s)")
    case Nil
    then show ?thesis using inv by (simp add: marketLevelStep_def side)
  next
    case (Cons r rest)
    show ?thesis
    proof (cases "Order_RemainingQuantity (hp s r) \<le>s 0")
      case True
      have "marketLevelStep a p s
              = Continue (s\<lparr>bk := set_level_Orders ?opp p (drop_head (r # rest)) (bk s)\<rparr>)"
        using Cons True by (simp add: marketLevelStep_def side)
      then show ?thesis using walk_stale [OF inv Cons] by simp
    next
      case ns: False
      define e where "e = (if Order_RemainingQuantity (hp s r) <s remainingQty s
                           then Order_RemainingQuantity (hp s r) else remainingQty s)"
      define h2 where
        "h2 = ((hp s)(a := Fill e (hp s a)))(r := Fill e (((hp s)(a := Fill e (hp s a))) r))"
      define s1 where
        "s1 = s\<lparr>hp := h2,
                res := (res s)\<lparr>Trades := Trades (res s) @ [make_trade (hp s a) (hp s r) p e],
                          MatchResult.FilledQuantity := MatchResult.FilledQuantity (res s) + e\<rparr>,
                remainingQty := remainingQty s - e\<rparr>"
      define ob' where "ob' = snd (RemoveOrder h2 (Order.ID (h2 r)) (bk s))"
      define ob1 where
        "ob1 = (if IsFilled (h2 r)
                then set_level_Orders ?opp p (drop_head (level_Orders ?opp p ob')) ob'
                else bk s)"
      have ef: "e \<noteq> remainingQty s \<Longrightarrow> e = Order_RemainingQuantity (hp s r)"
        unfolding e_def using executionQty_facts [OF ns g] by simp
      have ar: "a \<noteq> r" using walk_inv_head(1) [OF inv Cons] .
      have step: "marketLevelStep a p s =
          (if remainingQty s1 \<le>s 0 then Break (s1\<lparr>bk := ob1\<rparr>)
           else if level_Orders ?opp p ob1 = [] then Break (s1\<lparr>bk := delete_level ?opp p ob1\<rparr>)
           else Continue (s1\<lparr>bk := ob1\<rparr>))"
        using Cons ns ar
        by (simp add: marketLevelStep_def side Let_def e_def h2_def s1_def ob1_def ob'_def)
      have w1: "walk_inv ok h0 ob0 a s1" "walk_weight a s1 \<le> walk_weight a s"
        and w1s: "e = Order_RemainingQuantity (hp s r) \<Longrightarrow> walk_weight a s1 < walk_weight a s"
        unfolding s1_def h2_def
        using walk_trade [OF inv okp Cons ns, where e = e and rq = "remainingQty s - e"]
        by simp_all
      have hb: "hp s1 = h2" "bk s1 = bk s" by (simp_all add: s1_def)
      have sub': "sub_book ob' (bk s1)"
        unfolding ob'_def hb by (rule sub_book_RemoveOrder)
      have wle': "tree_weight (hp s1) (side_tree ?opp ob') \<le> tree_weight (hp s1) (side_tree ?opp (bk s1))"
        unfolding ob'_def hb by (rule tree_weight_RemoveOrder)
      have sub: "sub_book ob1 (bk s1)"
        unfolding ob1_def drop_head_eq
        using sub' sub_book_set_level_Orders_tl [of ?opp p ob'] sub_book_trans sub_book_refl hb(2)
        by (cases "IsFilled (h2 r)") auto
      have wle: "tree_weight (hp s1) (side_tree ?opp ob1)
                   \<le> tree_weight (hp s1) (side_tree ?opp (bk s1))"
        unfolding ob1_def drop_head_eq
        using wle' tree_weight_set_level_Orders_tl [of "hp s1" ?opp p ob'] hb(2)
        by (cases "IsFilled (h2 r)") auto
      have c: "walk_inv ok h0 ob0 a (s1\<lparr>bk := ob1\<rparr>)"
        "walk_weight a (s1\<lparr>bk := ob1\<rparr>) \<le> walk_weight a s1"
        using walk_book_shrink [OF w1(1) sub wle] by simp_all
      have sub2: "sub_book (delete_level ?opp p ob1) (bk s1)"
        using sub_book_delete_level sub sub_book_trans by blast
      have wle2: "tree_weight (hp s1) (side_tree ?opp (delete_level ?opp p ob1))
                   \<le> tree_weight (hp s1) (side_tree ?opp (bk s1))"
        using tree_weight_delete_level [of "hp s1" ?opp p ob1] wle by linarith
      have d: "walk_inv ok h0 ob0 a (s1\<lparr>bk := delete_level ?opp p ob1\<rparr>)"
        "walk_weight a (s1\<lparr>bk := delete_level ?opp p ob1\<rparr>) \<le> walk_weight a s1"
        using walk_book_shrink [OF w1(1) sub2 wle2] by simp_all
      have r1: "remainingQty s1 = remainingQty s - e" "remainingQty (s1\<lparr>bk := ob1\<rparr>) = remainingQty s1"
        by (simp_all add: s1_def)
      show ?thesis
      proof (cases "remainingQty s1 \<le>s 0")
        case True
        then show ?thesis using step c w1(2) by simp
      next
        case False
        then have "e \<noteq> remainingQty s" using r1(1) by auto
        then have lt: "walk_weight a s1 < walk_weight a s" using ef w1s by blast
        show ?thesis
        proof (cases "level_Orders ?opp p ob1 = []")
          case True
          then show ?thesis using step False d lt by simp
        next
          case ne: False
          then show ?thesis using step False c lt by simp
        qed
      qed
    qed
  qed
qed

subsection \<open>The loops of a market walk return\<close>

lemma marketLevelLoop_total:
  assumes "walk_inv ok h0 ob0 a s" and "ok p"
  shows "\<exists>s'. marketLevelLoop a p s = Some s'
           \<and> walk_inv ok h0 ob0 a s' \<and> walk_weight a s' \<le> walk_weight a s
           \<and> (0 <s remainingQty s \<and> level_Orders (opposite (Order.Side (h0 a))) p (bk s) \<noteq> []
                \<longrightarrow> remainingQty s' \<le>s 0 \<or> walk_weight a s' < walk_weight a s)"
  using assms
proof (induction "walk_weight a s" arbitrary: s rule: less_induct)
  case less
  note inv = less.prems(1) and okp = less.prems(2)
  show ?case
  proof (cases "0 <s remainingQty s")
    case False
    then have "marketLevelLoop a p s = Some s" by (subst marketLevelLoop.simps) simp
    then show ?thesis using inv False by simp
  next
    case g: True
    have unf: "marketLevelLoop a p s =
                 (case marketLevelStep a p s of
                    Break s' \<Rightarrow> Some s'
                  | Continue s' \<Rightarrow> marketLevelLoop a p s')"
      using g by (subst marketLevelLoop.simps) simp
    note st = marketLevelStep_inv [OF inv okp g]
    show ?thesis
    proof (cases "marketLevelStep a p s")
      case (Break s1)
      then show ?thesis using st unf by simp
    next
      case (Continue s1)
      then have s1: "walk_inv ok h0 ob0 a s1" "walk_weight a s1 < walk_weight a s"
        using st by simp_all
      from less.hyps [OF s1(2) s1(1) okp]
      obtain s' where "marketLevelLoop a p s1 = Some s'" "walk_inv ok h0 ob0 a s'"
        "walk_weight a s' \<le> walk_weight a s1"
        by blast
      then show ?thesis using unf Continue s1(2) by simp
    qed
  qed
qed

lemma marketBestPrice_Some:
  assumes "marketBestPrice a s = Some p"
  shows "level_Orders (opposite (Order.Side (hp s a))) p (bk s) \<noteq> []"
proof (cases "Order.Side (hp s a) = SideBuy")
  case True
  then obtain q where "best_of (hp s) (Asks (bk s)) = Some (p, q)"
    using assms
    by (auto simp: marketBestPrice_def GetBestAsk_def split: if_splits option.splits)
  from best_of_Some [OF this] show ?thesis
    using True by (auto simp: level_Orders_def opposite_def side_tree_def)
next
  case False
  then obtain q where "best_of (hp s) (Bids (bk s)) = Some (p, q)"
    using assms
    by (auto simp: marketBestPrice_def GetBestBid_def split: if_splits option.splits)
  from best_of_Some [OF this] show ?thesis
    using False by (auto simp: level_Orders_def opposite_def side_tree_def)
qed

lemma marketWalk_total:
  assumes "walk_inv (\<lambda>p. True) h0 ob0 a s"
  shows "\<exists>s'. marketWalk a s = Some s' \<and> walk_inv (\<lambda>p. True) h0 ob0 a s'"
  using assms
proof (induction "walk_weight a s" arbitrary: s rule: less_induct)
  case less
  note inv = less.prems(1)
  have side: "Order.Side (hp s a) = Order.Side (h0 a)" using inv by (rule walk_inv_static_side)
  show ?case
  proof (cases "0 <s remainingQty s")
    case False
    then have "marketWalk a s = Some s" by (subst marketWalk.simps) simp
    then show ?thesis using inv by simp
  next
    case g: True
    show ?thesis
    proof (cases "marketBestPrice a s")
      case None
      then have "marketWalk a s = Some s" using g by (subst marketWalk.simps) simp
      then show ?thesis using inv by simp
    next
      case (Some p)
      have ne: "level_Orders (opposite (Order.Side (h0 a))) p (bk s) \<noteq> []"
        using marketBestPrice_Some [OF Some] side by simp
      from marketLevelLoop_total [OF inv, of p] g ne
      obtain s1 where s1: "marketLevelLoop a p s = Some s1" "walk_inv (\<lambda>p. True) h0 ob0 a s1"
        "remainingQty s1 \<le>s 0 \<or> walk_weight a s1 < walk_weight a s"
        by blast
      have unf: "marketWalk a s = marketWalk a s1"
        using g Some s1(1) by (subst marketWalk.simps) simp
      show ?thesis
      proof (cases "remainingQty s1 \<le>s 0")
        case True
        then have "marketWalk a s1 = Some s1"
          by (subst marketWalk.simps) (simp add: word_sless_alt word_sle_eq)
        then show ?thesis using unf s1 by simp
      next
        case False
        then have "walk_weight a s1 < walk_weight a s" using s1(3) by simp
        from less.hyps [OF this s1(2)] show ?thesis using unf by simp
      qed
    qed
  qed
qed

lemma matchLimitOrder_walk:
  "matchLimitOrder h a ob =
     (case limitWalk a (limit_start h a ob) of
        None \<Rightarrow> None
      | Some s \<Rightarrow>
          (if MatchResult.FilledQuantity (res s) = 0
           then Some (hp s, AddOrder (hp s) a (bk s),
                      (res s)\<lparr>MatchResult.RemainingQuantity := remainingQty s,
                              MatchResult.Status := StatusAccepted\<rparr>)
           else if 0 <s remainingQty s
           then Some (hp s, AddOrder (hp s) a (bk s),
                      (res s)\<lparr>MatchResult.RemainingQuantity := remainingQty s,
                              MatchResult.Status := StatusPartialFill\<rparr>)
           else Some (hp s, bk s,
                      (res s)\<lparr>MatchResult.RemainingQuantity := remainingQty s,
                              MatchResult.Status := StatusFilled\<rparr>)))"
  by (simp add: matchLimitOrder_def limit_start_def Let_def split: option.splits)

lemma matchMarketOrder_walk:
  assumes "\<not> totalAvailable h (side_tree (opposite (Order.Side (h a))) ob) <s Order.Quantity (h a)"
  shows "matchMarketOrder h a ob =
     (case marketWalk a (market_start h a ob) of
        None \<Rightarrow> None
      | Some s \<Rightarrow>
          Some (Inr (hp s, bk s,
                     (res s)\<lparr>MatchResult.RemainingQuantity := remainingQty s,
                             MatchResult.Status := StatusFilled\<rparr>)))"
  using assms by (simp add: matchMarketOrder_def market_start_def Let_def)

lemma walk_inv_start_limit:
  assumes "a \<notin> queued (opposite (Order.Side (h a))) ob"
  shows "walk_inv ok h ob a (limit_start h a ob)"
  using assms by (simp add: walk_inv_def limit_start_def same_static_refl sub_book_refl)

lemma walk_inv_start_market:
  assumes "a \<notin> queued (opposite (Order.Side (h a))) ob"
  shows "walk_inv ok h ob a (market_start h a ob)"
  using assms by (simp add: walk_inv_def market_start_def same_static_refl sub_book_refl)

lemma limit_inv_start:
  assumes "Order.FilledQuantity (h a) = 0" and "0 <s Order.Quantity (h a)"
  shows "limit_inv a (limit_start h a ob)"
  using assms by (simp add: limit_inv_def limit_start_def word_sless_alt)

lemma unreferenced_sub_book:
  assumes "unreferenced a ob" and "sub_book ob' ob"
  shows "unreferenced a ob'"
proof -
  have "queued side ob' \<subseteq> queued side ob" for side
    using assms(2) by (intro sub_tree_queued sub_book_side)
  moreover have "ran (OrderBook.Orders ob') \<subseteq> ran (OrderBook.Orders ob)"
    using assms(2) by (auto simp: sub_book_def ran_def map_le_def dom_def) metis
  ultimately show ?thesis using assms(1) by (auto simp: unreferenced_def)
qed

lemma unreferenced_opp: "unreferenced a ob \<Longrightarrow> a \<notin> queued side ob"
  by (cases side) (simp_all add: unreferenced_def)

lemma trade_at_resting:
  assumes "trade_at h ob a t" and "levels_priced h (side_tree (opposite (Order.Side (h a))) ob)"
  shows "resting_trade h ob a t"
proof -
  obtain l x where lx: "l \<in> set (side_tree (opposite (Order.Side (h a))) ob)"
    "x \<in> set (PriceLevel.Orders l)"
    "t = make_trade (h a) (h x) (PriceLevel.Price l) (Trade.Quantity t)"
    using assms(1) by (auto simp: trade_at_def)
  have p: "Order.Price (h x) = PriceLevel.Price l" using assms(2) lx(1,2) by (simp add: levels_priced_def)
  have "Trade.Price t = PriceLevel.Price l"
    and "if Order.Side (h a) = SideBuy
         then BuyOrderID t = Order.ID (h a) \<and> SellOrderID t = Order.ID (h x)
         else BuyOrderID t = Order.ID (h x) \<and> SellOrderID t = Order.ID (h a)"
    by (subst lx(3), simp add: make_trade_def)+
  then show ?thesis unfolding resting_trade_def using lx(1,2) p by auto
qed

subsection \<open>Queued orders carry the price of their level\<close>

text \<open>
  The property holds of the empty book, \<open>AddOrder\<close> keeps it, and so does every book
  that only lost orders.
\<close>

lemma levels_priced_NewOrderBook: "levels_priced h (side_tree side (NewOrderBook symbol))"
  by (cases side) (simp_all add: levels_priced_def side_tree_def NewOrderBook_def)

lemma levels_priced_level_assign:
  assumes "levels_priced h t" and "\<forall>x \<in> set q. Order.Price (h x) = p"
  shows "levels_priced h (level_assign p q t)"
  using assms by (induction t) (auto simp: levels_priced_def)

lemma levels_priced_insert_empty:
  assumes "levels_priced h t"
  shows "levels_priced h (bt_ReplaceOrInsert lt \<lparr>PriceLevel.Price = p, PriceLevel.Orders = []\<rparr> t)"
  using assms by (induction t) (auto simp: levels_priced_def)

lemma levels_priced_AddOrder:
  assumes "levels_priced h (side_tree side ob)"
  shows "levels_priced h (side_tree side (AddOrder h a ob))"
proof (cases "side = Order.Side (h a)")
  case False
  then show ?thesis using assms by (simp add: side_tree_AddOrder_other)
next
  case True
  let ?p = "Order.Price (h a)"
  let ?t = "side_tree (Order.Side (h a)) ob"
  have lt: "levels_priced h ?t" using assms True by simp
  show ?thesis
  proof (cases "bt_Get ?p ?t")
    case None
    let ?t1 = "bt_ReplaceOrInsert (side_less (Order.Side (h a)))
                 \<lparr>PriceLevel.Price = ?p, PriceLevel.Orders = []\<rparr> ?t"
    have g: "bt_Get ?p ?t1 = Some \<lparr>PriceLevel.Price = ?p, PriceLevel.Orders = []\<rparr>"
      by (rule bt_Get_insert_level)
    have e: "side_tree (Order.Side (h a)) (AddOrder h a ob) = level_assign ?p ([] @ [a]) ?t1"
      using None g by (auto simp: AddOrder_def side_tree_def set_side_tree_def Let_def)
    have "levels_priced h ?t1" using lt by (rule levels_priced_insert_empty)
    then have "levels_priced h (level_assign ?p ([] @ [a]) ?t1)"
      by (rule levels_priced_level_assign) simp
    then show ?thesis using e True by simp
  next
    case (Some l)
    have e: "side_tree (Order.Side (h a)) (AddOrder h a ob)
               = level_assign ?p (PriceLevel.Orders l @ [a]) ?t"
      using Some by (auto simp: AddOrder_def side_tree_def set_side_tree_def Let_def)
    have "l \<in> set ?t" and "PriceLevel.Price l = ?p"
      using Some bt_Get_Some_mem bt_Get_Some_Price by blast+
    then have "\<forall>x \<in> set (PriceLevel.Orders l @ [a]). Order.Price (h x) = ?p"
      using lt by (auto simp: levels_priced_def)
    with lt have "levels_priced h (level_assign ?p (PriceLevel.Orders l @ [a]) ?t)"
      by (rule levels_priced_level_assign)
    then show ?thesis using e True by simp
  qed
qed

lemma levels_priced_sub_tree:
  assumes "levels_priced h t" and "sub_tree t' t" and "same_static h h'"
  shows "levels_priced h' t'"
  unfolding levels_priced_def
proof (intro ballI)
  fix l' x assume l': "l' \<in> set t'" and x: "x \<in> set (PriceLevel.Orders l')"
  from sub_tree_level [OF assms(2) l' x]
  obtain l where "l \<in> set t" "PriceLevel.Price l = PriceLevel.Price l'" "x \<in> set (PriceLevel.Orders l)"
    by blast
  then have "Order.Price (h x) = PriceLevel.Price l'" using assms(1) by (auto simp: levels_priced_def)
  then show "Order.Price (h' x) = PriceLevel.Price l'" using assms(3) by (simp add: same_static_def)
qed

subsection \<open>The three-level book\<close>

lemma ladder_reachable:
  "(case matchLimitOrder (empty_heap(1 := ask ''a1'' 15050 300)) 1 (NewOrderBook ''AAPL'') of
      None \<Rightarrow> False
    | Some (h1, ob1, r1) \<Rightarrow>
       (case matchLimitOrder (h1(2 := ask ''a2'' 15052 400)) 2 ob1 of
          None \<Rightarrow> False
        | Some (h2, ob2, r2) \<Rightarrow>
           (case matchLimitOrder (h2(3 := ask ''a3'' 15055 600)) 3 ob2 of
              None \<Rightarrow> False
            | Some (h3, ob3, r3) \<Rightarrow> h3 = ladder_heap \<and> ob3 = ladder_book)))"
  by (simp add: model_simps state_simps)

lemma ladder_unreferenced: "unreferenced 4 ladder_book"
  by (auto simp: unreferenced_def queued_def side_tree_def ladder_book_def ran_def split: if_splits)

lemma ladder_limit_buy:
  "(case matchLimitOrder limit_buy_heap 4 ladder_book of
      None \<Rightarrow> False
    | Some (h, ob, r) \<Rightarrow>
        MatchResult.FilledQuantity r = 700
        \<and> Trades r = [\<lparr>Trade.Price = 15050, Trade.Quantity = 300,
                        BuyOrderID = ''b4'', SellOrderID = ''a1''\<rparr>,
                       \<lparr>Trade.Price = 15052, Trade.Quantity = 400,
                        BuyOrderID = ''b4'', SellOrderID = ''a2''\<rparr>]
        \<and> Bids ob = [\<lparr>PriceLevel.Price = 15053, PriceLevel.Orders = [4]\<rparr>]
        \<and> Asks ob = [\<lparr>PriceLevel.Price = 15055, PriceLevel.Orders = [3]\<rparr>])"
  by (simp add: model_simps state_simps)

lemma ladder_market_buy:
  "(case matchMarketOrder market_buy_heap 4 ladder_book of
      Some (Inr (h, ob, r)) \<Rightarrow>
        Trades r = [\<lparr>Trade.Price = 15050, Trade.Quantity = 300,
                      BuyOrderID = ''m4'', SellOrderID = ''a1''\<rparr>,
                    \<lparr>Trade.Price = 15052, Trade.Quantity = 400,
                      BuyOrderID = ''m4'', SellOrderID = ''a2''\<rparr>,
                    \<lparr>Trade.Price = 15055, Trade.Quantity = 100,
                      BuyOrderID = ''m4'', SellOrderID = ''a3''\<rparr>]
    | _ \<Rightarrow> False)"
  by (simp add: model_simps state_simps)


section \<open>The outcome of a limit order\<close>

text \<open>
  C1. A limit order is submitted as a new object (nothing in the book points to it) with
  nothing filled and a positive quantity. Then the walk returns, \<open>matchLimitOrder\<close> returns,
  the filled quantity of the result is the order's and the remaining quantity is the rest,
  and exactly one of three cases holds. Filled quantity 0: status Accepted, and the book is
  the book after the walk with the order added, at the tail of the queue of its own side and
  price. Filled quantity strictly between 0 and the quantity: status PartialFill, the order
  is added in the same way and its remaining quantity is the unfilled rest. Filled quantity
  equal to the quantity: status Filled, the book is the book as the walk left it and nothing
  in it points to the order.
\<close>

theorem C1_limit_order_outcome:
  assumes "unreferenced a ob" and "Order.FilledQuantity (h a) = 0"
    and "0 <s Order.Quantity (h a)"
  shows "\<exists>s r ob'.
           limitWalk a (limit_start h a ob) = Some s
           \<and> matchLimitOrder h a ob = Some (hp s, ob', r)
           \<and> MatchResult.FilledQuantity r = Order.FilledQuantity (hp s a)
           \<and> MatchResult.RemainingQuantity r = Order.Quantity (h a) - MatchResult.FilledQuantity r
           \<and> (MatchResult.FilledQuantity r = 0
               \<or> (0 <s MatchResult.FilledQuantity r
                    \<and> MatchResult.FilledQuantity r <s Order.Quantity (h a))
               \<or> MatchResult.FilledQuantity r = Order.Quantity (h a))
           \<and> (MatchResult.FilledQuantity r = 0 \<longrightarrow>
                 MatchResult.Status r = StatusAccepted
                 \<and> ob' = AddOrder (hp s) a (bk s)
                 \<and> level_Orders (Order.Side (h a)) (Order.Price (h a)) ob'
                     = level_Orders (Order.Side (h a)) (Order.Price (h a)) (bk s) @ [a])
           \<and> (0 <s MatchResult.FilledQuantity r
                \<and> MatchResult.FilledQuantity r <s Order.Quantity (h a) \<longrightarrow>
                 MatchResult.Status r = StatusPartialFill
                 \<and> ob' = AddOrder (hp s) a (bk s)
                 \<and> level_Orders (Order.Side (h a)) (Order.Price (h a)) ob'
                     = level_Orders (Order.Side (h a)) (Order.Price (h a)) (bk s) @ [a]
                 \<and> Order_RemainingQuantity (hp s a)
                     = Order.Quantity (h a) - MatchResult.FilledQuantity r)
           \<and> (MatchResult.FilledQuantity r = Order.Quantity (h a) \<longrightarrow>
                 MatchResult.Status r = StatusFilled \<and> ob' = bk s \<and> unreferenced a ob')"
proof -
  let ?Q = "Order.Quantity (h a)"
  have nq: "a \<notin> queued (opposite (Order.Side (h a))) ob" using assms(1) by (rule unreferenced_opp)
  have i0: "walk_inv (crosses (h a)) h ob a (limit_start h a ob)"
    using nq by (rule walk_inv_start_limit)
  have l0: "limit_inv a (limit_start h a ob)"
    using assms(2,3) by (rule limit_inv_start)
  from limitWalk_total [OF i0 l0]
  obtain s where s: "limitWalk a (limit_start h a ob) = Some s"
    "walk_inv (crosses (h a)) h ob a s" "limit_inv a s"
    by blast
  let ?F = "Order.FilledQuantity (hp s a)"
  have st: "Order.Quantity (hp s a) = ?Q" "Order.Side (hp s a) = Order.Side (h a)"
    "Order.Price (hp s a) = Order.Price (h a)"
    using s(2) by (simp_all add: walk_inv_def same_static_def)
  have rF: "MatchResult.FilledQuantity (res s) = ?F" and rq: "remainingQty s = ?Q - ?F"
    and b: "0 \<le> sint ?F" "sint ?F \<le> sint ?Q"
    using s(3) st(1) by (simp_all add: limit_inv_def)
  have sr: "sint (?Q - ?F) = sint ?Q - sint ?F" using b by (rule sint_sub_in_range)
  have Qpos: "0 < sint ?Q" using assms(3) by (simp add: word_sless_alt)
  have z: "?F = 0 \<longleftrightarrow> sint ?F = 0" using signed_word_eqI [of ?F 0] by auto
  have q: "?F = ?Q \<longleftrightarrow> sint ?F = sint ?Q" using signed_word_eqI [of ?F ?Q] by auto
  have pos: "0 <s ?F \<longleftrightarrow> 0 < sint ?F" and lt: "?F <s ?Q \<longleftrightarrow> sint ?F < sint ?Q"
    and rem: "0 <s ?Q - ?F \<longleftrightarrow> sint ?F < sint ?Q"
    using sr by (simp_all add: word_sless_alt)
  have sb: "sub_book (bk s) ob" using s(2) by (simp add: walk_inv_def)
  have add: "level_Orders (Order.Side (h a)) (Order.Price (h a)) (AddOrder (hp s) a (bk s))
               = level_Orders (Order.Side (h a)) (Order.Price (h a)) (bk s) @ [a]"
    using level_Orders_AddOrder [of "hp s" a "bk s"] st by simp
  consider (none) "?F = 0" | (part) "0 < sint ?F" "sint ?F < sint ?Q" | (full) "?F = ?Q"
    using b z q by linarith
  then show ?thesis
  proof cases
    case none
    then have m: "matchLimitOrder h a ob
        = Some (hp s, AddOrder (hp s) a (bk s),
                (res s)\<lparr>MatchResult.RemainingQuantity := remainingQty s,
                        MatchResult.Status := StatusAccepted\<rparr>)"
      using s(1) rF by (simp add: matchLimitOrder_walk)
    have "?F \<noteq> ?Q" "\<not> 0 <s ?F" using none Qpos q pos by simp_all
    then show ?thesis using s(1) m rF rq none add
      by (intro exI [of _ s] exI [of _ "(res s)\<lparr>MatchResult.RemainingQuantity := remainingQty s,
                        MatchResult.Status := StatusAccepted\<rparr>"] exI [of _ "AddOrder (hp s) a (bk s)"])
         simp
  next
    case part
    then have f: "?F \<noteq> 0" "0 <s ?Q - ?F" "?F \<noteq> ?Q" "0 <s ?F" "?F <s ?Q"
      using z q pos lt rem by simp_all
    then have m: "matchLimitOrder h a ob
        = Some (hp s, AddOrder (hp s) a (bk s),
                (res s)\<lparr>MatchResult.RemainingQuantity := remainingQty s,
                        MatchResult.Status := StatusPartialFill\<rparr>)"
      using s(1) rF rq by (simp add: matchLimitOrder_walk)
    show ?thesis using s(1) m rF rq f add st(1)
      by (intro exI [of _ s] exI [of _ "(res s)\<lparr>MatchResult.RemainingQuantity := remainingQty s,
                        MatchResult.Status := StatusPartialFill\<rparr>"] exI [of _ "AddOrder (hp s) a (bk s)"])
         (simp add: Order_RemainingQuantity_def)
  next
    case full
    then have f: "?F \<noteq> 0" "\<not> 0 <s ?Q - ?F" "\<not> ?F <s ?Q"
      using z q Qpos lt rem by simp_all
    then have m: "matchLimitOrder h a ob
        = Some (hp s, bk s,
                (res s)\<lparr>MatchResult.RemainingQuantity := remainingQty s,
                        MatchResult.Status := StatusFilled\<rparr>)"
      using s(1) rF rq by (simp add: matchLimitOrder_walk)
    have u: "unreferenced a (bk s)" using assms(1) sb by (rule unreferenced_sub_book)
    show ?thesis using s(1) m rF rq f full u
      by (intro exI [of _ s] exI [of _ "(res s)\<lparr>MatchResult.RemainingQuantity := remainingQty s,
                        MatchResult.Status := StatusFilled\<rparr>"] exI [of _ "bk s"])
         simp
  qed
qed

text \<open>
  The theorem on the three-level book: a limit buy of 800 at 15053 fills 700 against the two
  asks it crosses and its remainder of 100 is queued as the only bid at 15053.
\<close>

theorem C1_limit_order_outcome_witness:
  "unreferenced 4 ladder_book
   \<and> Order.FilledQuantity (limit_buy_heap 4) = 0
   \<and> 0 <s Order.Quantity (limit_buy_heap 4)
   \<and> (\<exists>s r ob'.
         limitWalk 4 (limit_start limit_buy_heap 4 ladder_book) = Some s
         \<and> matchLimitOrder limit_buy_heap 4 ladder_book = Some (hp s, ob', r)
         \<and> MatchResult.FilledQuantity r = 700
         \<and> MatchResult.RemainingQuantity r = 100
         \<and> MatchResult.Status r = StatusPartialFill
         \<and> ob' = AddOrder (hp s) 4 (bk s)
         \<and> level_Orders SideBuy 15053 ob' = level_Orders SideBuy 15053 (bk s) @ [4]
         \<and> Order_RemainingQuantity (hp s 4) = 100)"
proof -
  have f: "Order.FilledQuantity (limit_buy_heap 4) = 0" "0 <s Order.Quantity (limit_buy_heap 4)"
    "Order.Quantity (limit_buy_heap 4) = 800" "Order.Side (limit_buy_heap 4) = SideBuy"
    "Order.Price (limit_buy_heap 4) = 15053"
    by (simp_all add: limit_buy_heap_def NewOrder_def signed_cmp)
  from C1_limit_order_outcome [where a = 4 and ob = ladder_book and h = limit_buy_heap]
    ladder_unreferenced f(1,2)
  obtain s r ob' where t: "limitWalk 4 (limit_start limit_buy_heap 4 ladder_book) = Some s"
    "matchLimitOrder limit_buy_heap 4 ladder_book = Some (hp s, ob', r)"
    "MatchResult.RemainingQuantity r = Order.Quantity (limit_buy_heap 4) - MatchResult.FilledQuantity r"
    "0 <s MatchResult.FilledQuantity r
       \<and> MatchResult.FilledQuantity r <s Order.Quantity (limit_buy_heap 4) \<longrightarrow>
         MatchResult.Status r = StatusPartialFill
         \<and> ob' = AddOrder (hp s) 4 (bk s)
         \<and> level_Orders (Order.Side (limit_buy_heap 4)) (Order.Price (limit_buy_heap 4)) ob'
             = level_Orders (Order.Side (limit_buy_heap 4)) (Order.Price (limit_buy_heap 4)) (bk s) @ [4]
         \<and> Order_RemainingQuantity (hp s 4)
             = Order.Quantity (limit_buy_heap 4) - MatchResult.FilledQuantity r"
    by blast
  have v: "MatchResult.FilledQuantity r = 700"
    using ladder_limit_buy t(2) by simp
  have "0 <s MatchResult.FilledQuantity r \<and> MatchResult.FilledQuantity r <s Order.Quantity (limit_buy_heap 4)"
    by (simp add: v f(3) signed_cmp)
  with t(4) have q: "MatchResult.Status r = StatusPartialFill \<and> ob' = AddOrder (hp s) 4 (bk s)
         \<and> level_Orders (Order.Side (limit_buy_heap 4)) (Order.Price (limit_buy_heap 4)) ob'
             = level_Orders (Order.Side (limit_buy_heap 4)) (Order.Price (limit_buy_heap 4)) (bk s) @ [4]
         \<and> Order_RemainingQuantity (hp s 4)
             = Order.Quantity (limit_buy_heap 4) - MatchResult.FilledQuantity r"
    by blast
  then have p1: "MatchResult.Status r = StatusPartialFill" "ob' = AddOrder (hp s) 4 (bk s)"
    by blast+
  from q have p2: "level_Orders SideBuy 15053 ob' = level_Orders SideBuy 15053 (bk s) @ [4]"
    unfolding f(4,5) by blast
  from q have p3: "Order_RemainingQuantity (hp s 4) = 100"
    unfolding f(3) v by simp
  have p4: "MatchResult.RemainingQuantity r = 100" using t(3) unfolding f(3) v by simp
  have "\<exists>s r ob'.
         limitWalk 4 (limit_start limit_buy_heap 4 ladder_book) = Some s
         \<and> matchLimitOrder limit_buy_heap 4 ladder_book = Some (hp s, ob', r)
         \<and> MatchResult.FilledQuantity r = 700
         \<and> MatchResult.RemainingQuantity r = 100
         \<and> MatchResult.Status r = StatusPartialFill
         \<and> ob' = AddOrder (hp s) 4 (bk s)
         \<and> level_Orders SideBuy 15053 ob' = level_Orders SideBuy 15053 (bk s) @ [4]
         \<and> Order_RemainingQuantity (hp s 4) = 100"
    using t(1,2) v p1 p2 p3 p4 by blast
  with ladder_unreferenced f(1,2) show ?thesis by blast
qed


section \<open>The price of a trade\<close>

text \<open>
  C4. The book's opposing side holds every order at the level of its own limit price, and
  the incoming order is not queued there. For a limit order (new, positive quantity)
  \<open>matchLimitOrder\<close> returns, and for a market order that passes the liquidity check
  \<open>matchMarketOrder\<close> returns. Every trade of the result prints at the price of the level at
  which its resting order was queued, which is that order's limit price, and names the
  incoming and the resting order as buyer and seller by the incoming side. For the limit
  order the print is at most its limit when it buys and at least its limit when it sells;
  so the buyer's limit is at least the print and the print at least the seller's limit. A
  market order puts no bound on the print.
\<close>

theorem C4_trade_prices:
  assumes "levels_priced h (side_tree (opposite (Order.Side (h a))) ob)"
    and "a \<notin> queued (opposite (Order.Side (h a))) ob"
  shows "(Order.FilledQuantity (h a) = 0 \<and> 0 <s Order.Quantity (h a) \<longrightarrow>
            (\<exists>h' ob' r. matchLimitOrder h a ob = Some (h', ob', r)
               \<and> (\<forall>t \<in> set (Trades r).
                     resting_trade h ob a t
                     \<and> (Order.Side (h a) = SideBuy \<longrightarrow> Trade.Price t \<le>s Order.Price (h a))
                     \<and> (Order.Side (h a) = SideSell \<longrightarrow> Order.Price (h a) \<le>s Trade.Price t))))
       \<and> (\<not> totalAvailable h (side_tree (opposite (Order.Side (h a))) ob) <s Order.Quantity (h a)
            \<longrightarrow>
            (\<exists>h' ob' r. matchMarketOrder h a ob = Some (Inr (h', ob', r))
               \<and> (\<forall>t \<in> set (Trades r). resting_trade h ob a t)))"
proof (intro conjI impI)
  assume new: "Order.FilledQuantity (h a) = 0 \<and> 0 <s Order.Quantity (h a)"
  have i0: "walk_inv (crosses (h a)) h ob a (limit_start h a ob)"
    using assms(2) by (rule walk_inv_start_limit)
  have l0: "limit_inv a (limit_start h a ob)"
    using new by (intro limit_inv_start) simp_all
  from limitWalk_total [OF i0 l0]
  obtain s where s: "limitWalk a (limit_start h a ob) = Some s"
    "walk_inv (crosses (h a)) h ob a s"
    by blast
  have "\<exists>ob' r. matchLimitOrder h a ob = Some (hp s, ob', r) \<and> Trades r = Trades (res s)"
    unfolding matchLimitOrder_walk s(1) by auto
  then obtain ob' r where m: "matchLimitOrder h a ob = Some (hp s, ob', r)"
    "Trades r = Trades (res s)"
    by blast
  have t: "\<forall>t \<in> set (Trades (res s)). trade_at h ob a t \<and> crosses (h a) (Trade.Price t)"
    using s(2) by (simp add: walk_inv_def)
  have "resting_trade h ob a t
        \<and> (Order.Side (h a) = SideBuy \<longrightarrow> Trade.Price t \<le>s Order.Price (h a))
        \<and> (Order.Side (h a) = SideSell \<longrightarrow> Order.Price (h a) \<le>s Trade.Price t)"
    if "t \<in> set (Trades (res s))" for t
    using t that trade_at_resting [OF _ assms(1), of t]
    by (auto simp: crosses_def word_sless_alt word_sle_eq)
  then show "\<exists>h' ob' r. matchLimitOrder h a ob = Some (h', ob', r)
               \<and> (\<forall>t \<in> set (Trades r).
                     resting_trade h ob a t
                     \<and> (Order.Side (h a) = SideBuy \<longrightarrow> Trade.Price t \<le>s Order.Price (h a))
                     \<and> (Order.Side (h a) = SideSell \<longrightarrow> Order.Price (h a) \<le>s Trade.Price t))"
    using m by auto
next
  assume liq: "\<not> totalAvailable h (side_tree (opposite (Order.Side (h a))) ob) <s Order.Quantity (h a)"
  have i0: "walk_inv (\<lambda>p. True) h ob a (market_start h a ob)"
    using assms(2) by (rule walk_inv_start_market)
  from marketWalk_total [OF i0]
  obtain s where s: "marketWalk a (market_start h a ob) = Some s"
    "walk_inv (\<lambda>p. True) h ob a s"
    by blast
  have m: "matchMarketOrder h a ob
        = Some (Inr (hp s, bk s, (res s)\<lparr>MatchResult.RemainingQuantity := remainingQty s,
                                        MatchResult.Status := StatusFilled\<rparr>))"
    using s(1) by (simp add: matchMarketOrder_walk [OF liq])
  have "\<forall>t \<in> set (Trades (res s)). trade_at h ob a t"
    using s(2) by (simp add: walk_inv_def)
  then have "\<forall>t \<in> set (Trades (res s)). resting_trade h ob a t"
    using trade_at_resting [OF _ assms(1)] by blast
  then show "\<exists>h' ob' r. matchMarketOrder h a ob = Some (Inr (h', ob', r))
               \<and> (\<forall>t \<in> set (Trades r). resting_trade h ob a t)"
    using m by simp
qed

text \<open>
  The theorem on the three-level book: the limit buy at 15053 trades at 15050 and 15052, the
  market buy of 800 at 15050, 15052 and 15055.
\<close>

theorem C4_trade_prices_witness:
  "levels_priced limit_buy_heap (side_tree (opposite (Order.Side (limit_buy_heap 4))) ladder_book)
   \<and> 4 \<notin> queued (opposite (Order.Side (limit_buy_heap 4))) ladder_book
   \<and> Order.FilledQuantity (limit_buy_heap 4) = 0 \<and> 0 <s Order.Quantity (limit_buy_heap 4)
   \<and> (\<exists>h' ob' r. matchLimitOrder limit_buy_heap 4 ladder_book = Some (h', ob', r)
         \<and> map Trade.Price (Trades r) = [15050, 15052]
         \<and> (\<forall>t \<in> set (Trades r).
               resting_trade limit_buy_heap ladder_book 4 t
               \<and> Trade.Price t \<le>s Order.Price (limit_buy_heap 4)))
   \<and> levels_priced market_buy_heap (side_tree (opposite (Order.Side (market_buy_heap 4))) ladder_book)
   \<and> 4 \<notin> queued (opposite (Order.Side (market_buy_heap 4))) ladder_book
   \<and> \<not> totalAvailable market_buy_heap
          (side_tree (opposite (Order.Side (market_buy_heap 4))) ladder_book)
        <s Order.Quantity (market_buy_heap 4)
   \<and> (\<exists>h' ob' r. matchMarketOrder market_buy_heap 4 ladder_book = Some (Inr (h', ob', r))
         \<and> map Trade.Price (Trades r) = [15050, 15052, 15055]
         \<and> (\<forall>t \<in> set (Trades r). resting_trade market_buy_heap ladder_book 4 t))"
proof -
  have l: "levels_priced limit_buy_heap (side_tree (opposite (Order.Side (limit_buy_heap 4))) ladder_book)"
    "4 \<notin> queued (opposite (Order.Side (limit_buy_heap 4))) ladder_book"
    "Order.FilledQuantity (limit_buy_heap 4) = 0 \<and> 0 <s Order.Quantity (limit_buy_heap 4)"
    "Order.Side (limit_buy_heap 4) = SideBuy"
    by (simp_all add: levels_priced_def queued_def opposite_def side_tree_def NewOrder_def
        state_simps signed_cmp)
  have m: "levels_priced market_buy_heap (side_tree (opposite (Order.Side (market_buy_heap 4))) ladder_book)"
    "4 \<notin> queued (opposite (Order.Side (market_buy_heap 4))) ladder_book"
    "\<not> totalAvailable market_buy_heap
          (side_tree (opposite (Order.Side (market_buy_heap 4))) ladder_book)
        <s Order.Quantity (market_buy_heap 4)"
    by (simp_all add: levels_priced_def queued_def opposite_def side_tree_def NewOrder_def
        state_simps signed_cmp totalAvailable_def sum_remaining_def Order_RemainingQuantity_def)
  from C4_trade_prices [where a = 4 and ob = ladder_book and h = limit_buy_heap] l
  obtain h' ob' r where a: "matchLimitOrder limit_buy_heap 4 ladder_book = Some (h', ob', r)"
    "\<forall>t \<in> set (Trades r). resting_trade limit_buy_heap ladder_book 4 t
        \<and> Trade.Price t \<le>s Order.Price (limit_buy_heap 4)"
    by auto
  have a2: "map Trade.Price (Trades r) = [15050, 15052]"
    using ladder_limit_buy a(1) by simp
  from C4_trade_prices [where a = 4 and ob = ladder_book and h = market_buy_heap] m
  obtain h'' ob'' r' where b: "matchMarketOrder market_buy_heap 4 ladder_book = Some (Inr (h'', ob'', r'))"
    "\<forall>t \<in> set (Trades r'). resting_trade market_buy_heap ladder_book 4 t"
    by auto
  have b2: "map Trade.Price (Trades r') = [15050, 15052, 15055]"
    using ladder_market_buy b(1) by simp
  have A: "\<exists>h' ob' r. matchLimitOrder limit_buy_heap 4 ladder_book = Some (h', ob', r)
         \<and> map Trade.Price (Trades r) = [15050, 15052]
         \<and> (\<forall>t \<in> set (Trades r).
               resting_trade limit_buy_heap ladder_book 4 t
               \<and> Trade.Price t \<le>s Order.Price (limit_buy_heap 4))"
    by (intro exI conjI) (rule a(1), rule a2, rule a(2))
  have B: "\<exists>h' ob' r. matchMarketOrder market_buy_heap 4 ladder_book = Some (Inr (h', ob', r))
         \<and> map Trade.Price (Trades r) = [15050, 15052, 15055]
         \<and> (\<forall>t \<in> set (Trades r). resting_trade market_buy_heap ladder_book 4 t)"
    by (intro exI conjI) (rule b(1), rule b2, rule b(2))
  from l(1,2,3) m A B show ?thesis by blast
qed

end
